theory Spec2Isabelle
  imports Complex_Main
begin

section \<open>GPS trace cleaning (\<^verbatim>\<open>src/py/gps_cleaner.py\<close>)\<close>

text \<open>
  A shallow embedding of \<^verbatim>\<open>clean_gps_route\<close> and of the functions it calls.

  \<^item> A raw waypoint is the dictionary \<^verbatim>\<open>{'lat': y, 'lng': x}\<close>: a record. A coordinate
    \<^verbatim>\<open>[lng, lat]\<close> is a pair, longitude first.
  \<^item> A Python float is the real number it stands for; infinities and NaN are outside the
    model. Floating-point operations round, so each one (\<^verbatim>\<open>+\<close>, \<^verbatim>\<open>-\<close>, \<^verbatim>\<open>*\<close>, \<^verbatim>\<open>/\<close>, \<^verbatim>\<open>**\<close>
    and the functions of \<^verbatim>\<open>math\<close>) is a parameter that gives its rounded result; exact
    arithmetic is one instance. Comparisons of floats are exact.
  \<^item> Python integers that index the trace are natural numbers: every index the code
    computes is at least the anchor. The placeholder \<^verbatim>\<open>upper_bound_idx = -1\<close> is
    overwritten on both exits of the expansion loop before it is read.
  \<^item> An exception is a value of \<open>py_error\<close>; a function that can raise returns
    \<open>py_error + 'a\<close>.
  \<^item> The routing collaborator \<^verbatim>\<open>forwardRouting\<close> is a network call. It always hands back
    some object, and which one may depend on the number of calls made before; that number
    is threaded through the algorithm and returned with the result.
  \<^item> A loop is a recursive function in the \<open>option\<close> monad: \<open>None\<close> stands for a loop
    that never ends. Termination is proved, not assumed.
  \<^item> \<^verbatim>\<open>print\<close> statements and the variables \<^verbatim>\<open>segment_counter\<close> and
    \<^verbatim>\<open>percent_complete\<close>, which only feed them, are left out (the division of line 34 is
    by \<^verbatim>\<open>total_points - 1\<close>, at least \<open>1\<close> inside the loop), as is the unused argument
    \<^verbatim>\<open>max_search_points\<close>.
\<close>

subsection \<open>Data\<close>

type_synonym coord = "real \<times> real"

record geo_point =
  lat :: real
  lng :: real

definition coord_of :: "geo_point \<Rightarrow> coord" where
  "coord_of wp = (lng wp, lat wp)"

definition point_of :: "coord \<Rightarrow> geo_point" where
  "point_of c = \<lparr>lat = snd c, lng = fst c\<rparr>"

datatype py_error =
    TypeError string
  | KeyError string
  | IndexError string
  | JSONDecodeError
  | PolylineDecodeError
  | GeometryError
  | ValueError string

text \<open>What \<^verbatim>\<open>forwardRouting\<close> hands back: a Flask \<^verbatim>\<open>Response\<close> with its body text,
  a string, or an object of any other type.\<close>

datatype response = FlaskResponse string | StrResponse string | OtherResponse

text \<open>A value produced by \<^verbatim>\<open>json.loads\<close>.\<close>

datatype json =
    JNull
  | JBool bool
  | JNum real
  | JStr string
  | JArr "json list"
  | JObj "(string \<times> json) list"

text \<open>
  The collaborator and the library functions the source calls: \<^verbatim>\<open>forwardRouting\<close>
  (first argument: the number of earlier calls), \<^verbatim>\<open>json.loads\<close>, \<^verbatim>\<open>polyline.decode\<close>,
  the formatting of a coordinate inside an f-string, and shapely's
  \<^verbatim>\<open>line.interpolate(line.project(p))\<close> for \<^verbatim>\<open>line = LineString(route_coords)\<close>; \<open>None\<close>
  is the library raising (shapely refuses a \<^verbatim>\<open>LineString\<close> of one point, for one). Then the
  floating-point operations: the five arithmetic operators and \<^verbatim>\<open>math.radians\<close>,
  \<^verbatim>\<open>math.sin\<close>, \<^verbatim>\<open>math.cos\<close>, \<^verbatim>\<open>math.atan2\<close>, and \<^verbatim>\<open>math.sqrt\<close> on an argument that is
  not negative.
\<close>

record env =
  forwardRouting :: "nat \<Rightarrow> string \<Rightarrow> string \<Rightarrow> string \<Rightarrow> response"
  json_loads :: "string \<Rightarrow> json option"
  polyline_decode :: "json \<Rightarrow> (real \<times> real) list option"
  float_str :: "real \<Rightarrow> string"
  line_nearest :: "coord list \<Rightarrow> coord \<Rightarrow> coord option"
  f_add :: "real \<Rightarrow> real \<Rightarrow> real"
  f_sub :: "real \<Rightarrow> real \<Rightarrow> real"
  f_mul :: "real \<Rightarrow> real \<Rightarrow> real"
  f_div :: "real \<Rightarrow> real \<Rightarrow> real"
  f_pow :: "real \<Rightarrow> nat \<Rightarrow> real"
  math_radians :: "real \<Rightarrow> real"
  math_sin :: "real \<Rightarrow> real"
  math_cos :: "real \<Rightarrow> real"
  math_sqrt :: "real \<Rightarrow> real"
  math_atan2 :: "real \<Rightarrow> real \<Rightarrow> real"

record cleaning_success =
  waypoints :: "geo_point list"
  path :: "geo_point list"
  distance :: real
  duration :: int
  reroute_count :: int
  compression_ratio :: real

datatype cleaning_result = Failure string | Success cleaning_success


subsection \<open>Python primitives\<close>

fun join :: "string \<Rightarrow> string list \<Rightarrow> string" where
  "join sep [] = []"
| "join sep [x] = x"
| "join sep (x # y # ys) = x @ sep @ join sep (y # ys)"

definition slice :: "'a list \<Rightarrow> nat \<Rightarrow> nat \<Rightarrow> 'a list" where
  "slice xs i j = take (j - i) (drop i xs)"

text \<open>\<^verbatim>\<open>v[key]\<close> for a string key.\<close>

fun getitem_str :: "json \<Rightarrow> string \<Rightarrow> py_error + json" where
  "getitem_str (JObj kvs) key =
     (case map_of kvs key of None \<Rightarrow> Inl (KeyError key) | Some v \<Rightarrow> Inr v)"
| "getitem_str (JArr xs) key = Inl (TypeError ''list indices must be integers or slices, not str'')"
| "getitem_str (JStr s) key = Inl (TypeError ''string indices must be integers'')"
| "getitem_str v key = Inl (TypeError ''object is not subscriptable'')"

text \<open>\<^verbatim>\<open>v[0]\<close>. The keys of a parsed JSON object are strings, so \<^verbatim>\<open>0\<close> is never one.\<close>

fun getitem_0 :: "json \<Rightarrow> py_error + json" where
  "getitem_0 (JArr xs) =
     (case xs of [] \<Rightarrow> Inl (IndexError ''list index out of range'') | x # _ \<Rightarrow> Inr x)"
| "getitem_0 (JStr s) =
     (case s of [] \<Rightarrow> Inl (IndexError ''string index out of range'') | c # _ \<Rightarrow> Inr (JStr [c]))"
| "getitem_0 (JObj kvs) = Inl (KeyError ''0'')"
| "getitem_0 v = Inl (TypeError ''object is not subscriptable'')"

text \<open>\<^verbatim>\<open>d.get(key, 0)\<close> on a dictionary.\<close>

definition dict_get_0 :: "(string \<times> json) list \<Rightarrow> string \<Rightarrow> json" where
  "dict_get_0 kvs key = (case map_of kvs key of None \<Rightarrow> JNum 0 | Some v \<Rightarrow> v)"

subsection \<open>\<^verbatim>\<open>get_router_type\<close> (lines 133-139)\<close>

definition router_mapping :: "(string \<times> string) list" where
  "router_mapping =
     [(''bus'', ''driving''), (''car'', ''driving''),
      (''train'', ''rail''), (''metro'', ''rail''), (''tram'', ''rail''),
      (''ferry'', ''rail''), (''aerialway'', ''rail''),
      (''walk'', ''foot''), (''cycle'', ''cycling'')]"

definition get_router_type :: "string \<Rightarrow> string" where
  "get_router_type trip_type =
     (case map_of router_mapping trip_type of None \<Rightarrow> ''rail'' | Some r \<Rightarrow> r)"

subsection \<open>\<^verbatim>\<open>get_route_via_forward_routing\<close> (lines 142-172)\<close>

text \<open>Lines 143-150: the path and the options sent to the engine.\<close>

definition router_path :: "env \<Rightarrow> string \<Rightarrow> coord list \<Rightarrow> string" where
  "router_path E router_type wps =
     ''route/v1/'' @ router_type @ ''/'' @
     join '';'' (map (\<lambda>wp. float_str E (fst wp) @ '','' @ float_str E (snd wp)) wps)"

definition router_options :: "string \<Rightarrow> coord list \<Rightarrow> string" where
  "router_options router_type wps =
     ''overview=full&continue_straight=false&snapping=any'' @ ''&radiuses='' @
     join '';'' (replicate (length wps) (if router_type = ''rail'' then ''1000'' else ''150''))"

text \<open>Lines 151-158: the call (the \<open>k\<close>-th of the run) and the parsing of its answer.\<close>

definition routing_result :: "env \<Rightarrow> nat \<Rightarrow> string \<Rightarrow> coord list \<Rightarrow> string \<Rightarrow> py_error + json" where
  "routing_result E k router_type wps trip_type =
     (case forwardRouting E k (router_path E router_type wps) trip_type
             (router_options router_type wps) of
        FlaskResponse body \<Rightarrow>
          (case json_loads E body of None \<Rightarrow> Inl JSONDecodeError | Some j \<Rightarrow> Inr j)
      | StrResponse body \<Rightarrow>
          (case json_loads E body of None \<Rightarrow> Inl JSONDecodeError | Some j \<Rightarrow> Inr j)
      | OtherResponse \<Rightarrow> Inl (TypeError ''Unsupported response type''))"

text \<open>Lines 163-165: \<^verbatim>\<open>routing_result["routes"][0]\<close>, its geometry, decoded, each
  \<^verbatim>\<open>(lat, lng)\<close> swapped to \<^verbatim>\<open>[lng, lat]\<close>.\<close>

definition first_route :: "json \<Rightarrow> py_error + json" where
  "first_route rr =
     (case getitem_str rr ''routes'' of Inl e \<Rightarrow> Inl e | Inr routes \<Rightarrow> getitem_0 routes)"

definition decoded_route :: "env \<Rightarrow> json \<Rightarrow> py_error + coord list" where
  "decoded_route E rr =
     (case first_route rr of Inl e \<Rightarrow> Inl e | Inr r0 \<Rightarrow>
        (case getitem_str r0 ''geometry'' of Inl e \<Rightarrow> Inl e | Inr encoded_geometry \<Rightarrow>
           (case polyline_decode E encoded_geometry of
              None \<Rightarrow> Inl PolylineDecodeError
            | Some decoded_coords \<Rightarrow> Inr (map (\<lambda>c. (snd c, fst c)) decoded_coords))))"

text \<open>The function with \<^verbatim>\<open>return_details=False\<close>, as \<^verbatim>\<open>clean_gps_route\<close> calls it:
  \<open>None\<close> is Python's \<^verbatim>\<open>None\<close>.\<close>

definition get_route_via_forward_routing ::
  "env \<Rightarrow> nat \<Rightarrow> string \<Rightarrow> coord list \<Rightarrow> string \<Rightarrow> py_error + coord list option" where
  "get_route_via_forward_routing E k router_type wps trip_type =
     (case routing_result E k router_type wps trip_type of Inl e \<Rightarrow> Inl e | Inr rr \<Rightarrow>
        (case getitem_str rr ''code'' of Inl e \<Rightarrow> Inl e | Inr code \<Rightarrow>
           if code \<noteq> JStr ''Ok'' then Inr None
           else (case decoded_route E rr of Inl e \<Rightarrow> Inl e | Inr route_coords \<Rightarrow>
                   Inr (Some route_coords))))"

text \<open>The function with \<^verbatim>\<open>return_details=True\<close>: the triple
  \<^verbatim>\<open>(route_coords, route_distance, route_duration)\<close>, or \<^verbatim>\<open>(None, 0, 0)\<close>.\<close>

definition get_route_via_forward_routing_details ::
  "env \<Rightarrow> nat \<Rightarrow> string \<Rightarrow> coord list \<Rightarrow> string \<Rightarrow> py_error + (coord list option \<times> json \<times> json)" where
  "get_route_via_forward_routing_details E k router_type wps trip_type =
     (case routing_result E k router_type wps trip_type of Inl e \<Rightarrow> Inl e | Inr rr \<Rightarrow>
        (case getitem_str rr ''code'' of Inl e \<Rightarrow> Inl e | Inr code \<Rightarrow>
           if code \<noteq> JStr ''Ok'' then Inr (None, JNum 0, JNum 0)
           else (case decoded_route E rr of Inl e \<Rightarrow> Inl e | Inr route_coords \<Rightarrow>
                   (case first_route rr of Inl e \<Rightarrow> Inl e
                    | Inr (JObj kvs) \<Rightarrow>
                        Inr (Some route_coords, dict_get_0 kvs ''distance'', dict_get_0 kvs ''duration'')
                    | Inr other \<Rightarrow> Inl (TypeError ''object has no attribute get'')))))"

subsection \<open>\<^verbatim>\<open>haversine_distance\<close> (lines 175-186)\<close>

text \<open>\<^verbatim>\<open>math.sqrt\<close> raises \<^verbatim>\<open>ValueError\<close> on a negative argument.\<close>

definition py_sqrt :: "env \<Rightarrow> real \<Rightarrow> py_error + real" where
  "py_sqrt E x = (if x < 0 then Inl (ValueError ''math domain error'') else Inr (math_sqrt E x))"

text \<open>Line 183, the value \<^verbatim>\<open>a\<close>. The arguments are \<^verbatim>\<open>lat1\<close>, \<^verbatim>\<open>lat2\<close>, \<^verbatim>\<open>dlat\<close> and
  \<^verbatim>\<open>dlon\<close>.\<close>

definition haversine_a :: "env \<Rightarrow> real \<Rightarrow> real \<Rightarrow> real \<Rightarrow> real \<Rightarrow> real" where
  "haversine_a E lat1 lat2 dlat dlon =
     f_add E (f_pow E (math_sin E (f_div E dlat 2)) 2)
       (f_mul E (f_mul E (math_cos E lat1) (math_cos E lat2))
          (f_pow E (math_sin E (f_div E dlon 2)) 2))"

text \<open>The function. Both square roots of line 184 are taken before \<^verbatim>\<open>atan2\<close> is called,
  the one of \<^verbatim>\<open>a\<close> first. Rounding can make \<^verbatim>\<open>a\<close> exceed \<open>1\<close>, and then the second one
  raises.\<close>

definition haversine_distance :: "env \<Rightarrow> coord \<Rightarrow> coord \<Rightarrow> py_error + real" where
  "haversine_distance E point1 point2 =
     (case py_sqrt E (haversine_a E (math_radians E (snd point1)) (math_radians E (snd point2))
                        (f_sub E (math_radians E (snd point2)) (math_radians E (snd point1)))
                        (f_sub E (math_radians E (fst point2)) (math_radians E (fst point1)))) of
        Inl e \<Rightarrow> Inl e
      | Inr root_a \<Rightarrow>
          (case py_sqrt E
                  (f_sub E 1
                     (haversine_a E (math_radians E (snd point1)) (math_radians E (snd point2))
                        (f_sub E (math_radians E (snd point2)) (math_radians E (snd point1)))
                        (f_sub E (math_radians E (fst point2)) (math_radians E (fst point1))))) of
             Inl e \<Rightarrow> Inl e
           | Inr root_1_a \<Rightarrow>
               Inr (f_mul E 6371000 (f_mul E 2 (math_atan2 E root_a root_1_a)))))"

subsection \<open>\<^verbatim>\<open>validate_segment\<close> (lines 112-130)\<close>

text \<open>The \<^verbatim>\<open>for\<close> loop of lines 121-130. The planar \<^verbatim>\<open>distance\<close> of line 123 is
  computed and never read.\<close>

fun validate_points :: "env \<Rightarrow> coord list \<Rightarrow> coord list \<Rightarrow> real \<Rightarrow> py_error + bool" where
  "validate_points E route_coords [] threshold = Inr True"
| "validate_points E route_coords (p_coords # rest) threshold =
     (case line_nearest E route_coords p_coords of
        None \<Rightarrow> Inl GeometryError
      | Some projected_point \<Rightarrow>
          (case haversine_distance E p_coords projected_point of
             Inl e \<Rightarrow> Inl e
           | Inr real_distance \<Rightarrow>
               if real_distance > threshold then Inr False
               else validate_points E route_coords rest threshold))"

definition validate_segment :: "env \<Rightarrow> coord list \<Rightarrow> coord list \<Rightarrow> real \<Rightarrow> py_error + bool" where
  "validate_segment E route_coords intermediate_points threshold =
     (if intermediate_points = [] then Inr True
      else validate_points E route_coords intermediate_points threshold)"

subsection \<open>\<^verbatim>\<open>calculate_path_distance_coords\<close> (lines 189-195)\<close>

text \<open>The \<^verbatim>\<open>for\<close> loop of lines 193-194 over the indices still to visit.\<close>

fun add_distances :: "env \<Rightarrow> coord list \<Rightarrow> real \<Rightarrow> nat list \<Rightarrow> py_error + real" where
  "add_distances E coords total_distance [] = Inr total_distance"
| "add_distances E coords total_distance (i # rest) =
     (case haversine_distance E (coords ! i) (coords ! (i + 1)) of
        Inl e \<Rightarrow> Inl e
      | Inr d \<Rightarrow> add_distances E coords (f_add E total_distance d) rest)"

definition calculate_path_distance_coords :: "env \<Rightarrow> coord list \<Rightarrow> py_error + real" where
  "calculate_path_distance_coords E coords =
     (if length coords < 2 then Inr 0
      else add_distances E coords 0 [0..<length coords - 1])"

subsection \<open>\<^verbatim>\<open>clean_gps_route\<close> (lines 7-109)\<close>

text \<open>
  Lines 49-55 and 68-74 are the same probe: route from the anchor to a candidate index,
  and accept it when the route is truthy (neither \<^verbatim>\<open>None\<close> nor an empty list) and the raw
  points strictly between the two validate against it. \<open>k\<close> is the number of routing
  calls made so far; the probe makes exactly one.
\<close>

definition probe_valid ::
  "env \<Rightarrow> geo_point list \<Rightarrow> string \<Rightarrow> string \<Rightarrow> real \<Rightarrow> nat \<Rightarrow> nat \<Rightarrow> nat \<Rightarrow> py_error + bool" where
  "probe_valid E raw router_type trip_type threshold last_anchor_idx idx k =
     (case get_route_via_forward_routing E k router_type
             [coord_of (raw ! last_anchor_idx), coord_of (raw ! idx)] trip_type of
        Inl e \<Rightarrow> Inl e
      | Inr None \<Rightarrow> Inr False
      | Inr (Some segment_coords) \<Rightarrow>
          if segment_coords = [] then Inr False
          else validate_segment E segment_coords
                 (map coord_of (slice raw (last_anchor_idx + 1) idx)) threshold)"

text \<open>Lines 43-60, the exponential expansion. It returns \<^verbatim>\<open>lower_bound_idx\<close>,
  \<^verbatim>\<open>upper_bound_idx\<close> and the number of routing calls made so far.\<close>

partial_function (option) expand ::
  "env \<Rightarrow> geo_point list \<Rightarrow> string \<Rightarrow> string \<Rightarrow> real \<Rightarrow> nat \<Rightarrow> nat \<Rightarrow> nat \<Rightarrow> nat \<Rightarrow>
   (py_error + nat \<times> nat \<times> nat) option" where
  "expand E raw router_type trip_type threshold last_anchor_idx lower_bound_idx probe_step k =
     (if last_anchor_idx + probe_step \<ge> length raw
      then Some (Inr (lower_bound_idx, length raw - 1, k))
      else (case probe_valid E raw router_type trip_type threshold last_anchor_idx
                   (last_anchor_idx + probe_step) k of
              Inl e \<Rightarrow> Some (Inl e)
            | Inr ok \<Rightarrow>
                if \<not> ok then Some (Inr (lower_bound_idx, last_anchor_idx + probe_step, k + 1))
                else expand E raw router_type trip_type threshold last_anchor_idx
                       (last_anchor_idx + probe_step) (probe_step * 2) (k + 1)))"

declare expand.simps [code]

text \<open>Lines 63-78, the binary search. It returns \<^verbatim>\<open>best_next_idx\<close> and the number of
  routing calls made so far.\<close>

partial_function (option) bsearch ::
  "env \<Rightarrow> geo_point list \<Rightarrow> string \<Rightarrow> string \<Rightarrow> real \<Rightarrow> nat \<Rightarrow> nat \<Rightarrow> nat \<Rightarrow> nat \<Rightarrow> nat \<Rightarrow>
   (py_error + nat \<times> nat) option" where
  "bsearch E raw router_type trip_type threshold last_anchor_idx lower_bound_idx upper_bound_idx
     best_next_idx k =
     (if lower_bound_idx \<le> upper_bound_idx
      then (if (lower_bound_idx + upper_bound_idx) div 2 \<le> last_anchor_idx
            then Some (Inr (best_next_idx, k))
            else (case probe_valid E raw router_type trip_type threshold last_anchor_idx
                         ((lower_bound_idx + upper_bound_idx) div 2) k of
                    Inl e \<Rightarrow> Some (Inl e)
                  | Inr ok \<Rightarrow>
                      if ok
                      then bsearch E raw router_type trip_type threshold last_anchor_idx
                             ((lower_bound_idx + upper_bound_idx) div 2 + 1) upper_bound_idx
                             ((lower_bound_idx + upper_bound_idx) div 2) (k + 1)
                      else bsearch E raw router_type trip_type threshold last_anchor_idx
                             lower_bound_idx ((lower_bound_idx + upper_bound_idx) div 2 - 1)
                             best_next_idx (k + 1)))
      else Some (Inr (best_next_idx, k)))"

declare bsearch.simps [code]

text \<open>Lines 39-78: both search phases from one anchor.\<close>

definition find_best ::
  "env \<Rightarrow> geo_point list \<Rightarrow> string \<Rightarrow> string \<Rightarrow> real \<Rightarrow> nat \<Rightarrow> nat \<Rightarrow> (py_error + nat \<times> nat) option" where
  "find_best E raw router_type trip_type threshold last_anchor_idx k =
     (case expand E raw router_type trip_type threshold last_anchor_idx last_anchor_idx 1 k of
        None \<Rightarrow> None
      | Some (Inl e) \<Rightarrow> Some (Inl e)
      | Some (Inr (lower_bound_idx, upper_bound_idx, k1)) \<Rightarrow>
          bsearch E raw router_type trip_type threshold last_anchor_idx
            lower_bound_idx upper_bound_idx lower_bound_idx k1)"

text \<open>The variables that live across iterations of the main loop, and the number of
  routing calls made so far.\<close>

record loop_state =
  anchor :: nat
  key_waypoints_coords :: "coord list"
  final_route_coords :: "coord list"
  calls :: nat

text \<open>Lines 33-92, one iteration of the main loop. \<^verbatim>\<open>final_segment_coords[:-1]\<close> raises
  \<^verbatim>\<open>TypeError\<close> on \<^verbatim>\<open>None\<close>.\<close>

definition advance ::
  "env \<Rightarrow> geo_point list \<Rightarrow> string \<Rightarrow> string \<Rightarrow> real \<Rightarrow> loop_state \<Rightarrow> (py_error + loop_state) option" where
  "advance E raw router_type trip_type threshold s =
     (case find_best E raw router_type trip_type threshold (anchor s) (calls s) of
        None \<Rightarrow> None
      | Some (Inl e) \<Rightarrow> Some (Inl e)
      | Some (Inr (best_next_idx, k)) \<Rightarrow>
          if best_next_idx \<le> anchor s
          then Some (Inr (s\<lparr>anchor := anchor s + 1, calls := k\<rparr>))
          else (case get_route_via_forward_routing E k router_type
                       [coord_of (raw ! anchor s), coord_of (raw ! best_next_idx)] trip_type of
                  Inl e \<Rightarrow> Some (Inl e)
                | Inr None \<Rightarrow> Some (Inl (TypeError ''NoneType object is not subscriptable''))
                | Inr (Some final_segment_coords) \<Rightarrow>
                    Some (Inr \<lparr>anchor = best_next_idx,
                               key_waypoints_coords =
                                 key_waypoints_coords s @ [coord_of (raw ! best_next_idx)],
                               final_route_coords =
                                 final_route_coords s @ butlast final_segment_coords,
                               calls = k + 1\<rparr>)))"

text \<open>Line 32, the main loop.\<close>

partial_function (option) main_loop ::
  "env \<Rightarrow> geo_point list \<Rightarrow> string \<Rightarrow> string \<Rightarrow> real \<Rightarrow> loop_state \<Rightarrow> (py_error + loop_state) option" where
  "main_loop E raw router_type trip_type threshold s =
     (if anchor s < length raw - 1
      then (case advance E raw router_type trip_type threshold s of
              None \<Rightarrow> None
            | Some (Inl e) \<Rightarrow> Some (Inl e)
            | Some (Inr s') \<Rightarrow> main_loop E raw router_type trip_type threshold s')
      else Some (Inr s))"

declare main_loop.simps [code]

text \<open>Lines 26-30: the state before the first iteration.\<close>

definition initial_state :: "geo_point list \<Rightarrow> loop_state" where
  "initial_state raw =
     \<lparr>anchor = 0, key_waypoints_coords = [coord_of (raw ! 0)], final_route_coords = [], calls = 0\<rparr>"

text \<open>Lines 94-109: the result built from the state the loop ends in.\<close>

definition build_result :: "env \<Rightarrow> geo_point list \<Rightarrow> loop_state \<Rightarrow> py_error + cleaning_success" where
  "build_result E raw s =
     (case calculate_path_distance_coords E
             (final_route_coords s @ [last (key_waypoints_coords s)]) of
        Inl e \<Rightarrow> Inl e
      | Inr route_distance \<Rightarrow>
          Inr \<lparr>waypoints = map point_of (key_waypoints_coords s),
               path = map point_of (final_route_coords s @ [last (key_waypoints_coords s)]),
               distance = route_distance,
               duration = 0,
               reroute_count = int (length (map point_of (key_waypoints_coords s))) - 2,
               compression_ratio =
                 (if map point_of (final_route_coords s @ [last (key_waypoints_coords s)]) \<noteq> []
                  then f_div E (real (length raw))
                         (real (length (map point_of
                            (final_route_coords s @ [last (key_waypoints_coords s)]))))
                  else 0)\<rparr>)"

text \<open>The whole function: its result, or the exception it raises, with the number of
  routing calls it made.\<close>

definition clean_gps_route ::
  "env \<Rightarrow> geo_point list \<Rightarrow> string \<Rightarrow> real \<Rightarrow> (py_error + cleaning_result \<times> nat) option" where
  "clean_gps_route E raw trip_type deviation_threshold =
     (if length raw < 2 then Some (Inr (Failure ''Need at least 2 waypoints'', 0))
      else (case main_loop E raw (get_router_type trip_type) trip_type deviation_threshold
                   (initial_state raw) of
              None \<Rightarrow> None
            | Some (Inl e) \<Rightarrow> Some (Inl e)
            | Some (Inr s) \<Rightarrow>
                (case build_result E raw s of
                   Inl e \<Rightarrow> Some (Inl e)
                 | Inr r \<Rightarrow> Some (Inr (Success r, calls s)))))"

subsection \<open>The states of a run\<close>

text \<open>
  \<open>reaches E raw router_type trip_type threshold s t\<close>: the main loop, started in state
  \<open>s\<close>, is in state \<open>t\<close> at the head of some later iteration (or of the same one).
  Each step is one pass through the loop body, taken under the loop's guard of line 32.
\<close>

inductive reaches ::
  "env \<Rightarrow> geo_point list \<Rightarrow> string \<Rightarrow> string \<Rightarrow> real \<Rightarrow> loop_state \<Rightarrow> loop_state \<Rightarrow> bool"
  for E raw router_type trip_type threshold where
    start: "reaches E raw router_type trip_type threshold s s"
  | iterate: "reaches E raw router_type trip_type threshold s t \<Longrightarrow>
              anchor t < length raw - 1 \<Longrightarrow>
              advance E raw router_type trip_type threshold t = Some (Inr u) \<Longrightarrow>
              reaches E raw router_type trip_type threshold s u"

text \<open>
  \<open>commits_of E raw router_type trip_type threshold s t cs\<close>: the main loop runs from state
  \<open>s\<close> to state \<open>t\<close>, and \<open>cs\<close> lists, in order, the segments committed on the way. An
  iteration whose search ends at or below the anchor commits nothing (lines 80-83). One
  whose search ends beyond the anchor commits the triple of the anchor it started from, the
  index found and the polyline that the routing call of lines 86-88 returns for these two
  raw points.
\<close>

inductive commits_of ::
  "env \<Rightarrow> geo_point list \<Rightarrow> string \<Rightarrow> string \<Rightarrow> real \<Rightarrow> loop_state \<Rightarrow> loop_state \<Rightarrow>
   (nat \<times> nat \<times> coord list) list \<Rightarrow> bool"
  for E raw router_type trip_type threshold where
    nothing: "commits_of E raw router_type trip_type threshold s s []"
  | skipped: "commits_of E raw router_type trip_type threshold s t cs \<Longrightarrow>
              anchor t < length raw - 1 \<Longrightarrow>
              find_best E raw router_type trip_type threshold (anchor t) (calls t) =
                Some (Inr (best_next_idx, k)) \<Longrightarrow>
              best_next_idx \<le> anchor t \<Longrightarrow>
              advance E raw router_type trip_type threshold t = Some (Inr u) \<Longrightarrow>
              commits_of E raw router_type trip_type threshold s u cs"
  | committed: "commits_of E raw router_type trip_type threshold s t cs \<Longrightarrow>
              anchor t < length raw - 1 \<Longrightarrow>
              find_best E raw router_type trip_type threshold (anchor t) (calls t) =
                Some (Inr (best_next_idx, k)) \<Longrightarrow>
              anchor t < best_next_idx \<Longrightarrow>
              get_route_via_forward_routing E k router_type
                [coord_of (raw ! anchor t), coord_of (raw ! best_next_idx)] trip_type =
                Inr (Some final_segment_coords) \<Longrightarrow>
              advance E raw router_type trip_type threshold t = Some (Inr u) \<Longrightarrow>
              commits_of E raw router_type trip_type threshold s u
                (cs @ [(anchor t, best_next_idx, final_segment_coords)])"

subsection \<open>Exact arithmetic, great circles and the nearest point of a polyline\<close>

text \<open>
  The arithmetic that does not round: every floating-point operation of the environment
  gives the exact real result. \<open>atan2\<close> is the two-argument arc tangent of the C library on
  finite arguments.
\<close>

definition atan2 :: "real \<Rightarrow> real \<Rightarrow> real" where
  "atan2 y x =
     (if 0 < x then arctan (y / x)
      else if x < 0 then (if 0 \<le> y then arctan (y / x) + pi else arctan (y / x) - pi)
      else if 0 < y then pi / 2 else if y < 0 then - (pi / 2) else 0)"

definition exact_arithmetic :: "env \<Rightarrow> bool" where
  "exact_arithmetic E \<longleftrightarrow>
     f_add E = (\<lambda>x y. x + y) \<and> f_sub E = (\<lambda>x y. x - y) \<and> f_mul E = (\<lambda>x y. x * y) \<and>
     f_div E = (\<lambda>x y. x / y) \<and> f_pow E = (\<lambda>x n. x ^ n) \<and>
     math_radians E = (\<lambda>x. x * pi / 180) \<and> math_sin E = sin \<and> math_cos E = cos \<and>
     math_sqrt E = sqrt \<and> math_atan2 E = atan2"

text \<open>
  The great-circle distance of two points given as \<^verbatim>\<open>[lng, lat]\<close> in degrees, on a sphere
  of radius 6,371,000 m: the radius times the angle between the two points seen from the
  centre, by the spherical law of cosines.
\<close>

definition central_angle :: "coord \<Rightarrow> coord \<Rightarrow> real" where
  "central_angle p q =
     arccos (sin (snd p * pi / 180) * sin (snd q * pi / 180) +
             cos (snd p * pi / 180) * cos (snd q * pi / 180) *
               cos (fst q * pi / 180 - fst p * pi / 180))"

definition great_circle_distance :: "coord \<Rightarrow> coord \<Rightarrow> real" where
  "great_circle_distance p q = 6371000 * central_angle p q"

text \<open>
  Modelled from the spec: shapely's \<^verbatim>\<open>LineString\<close>, \<^verbatim>\<open>project\<close> and \<^verbatim>\<open>interpolate\<close> are
  not under \<^verbatim>\<open>src/\<close>. The spec describes their result as the perpendicular projection
  onto the polyline treated as a connected sequence of straight segments: the nearest
  point on the polyline, not merely the nearest vertex. Distances are planar, in the
  coordinates as they are. \<open>along a b t\<close> is the point of the segment from \<open>a\<close> to \<open>b\<close> at
  the fraction \<open>t\<close>; the nearest point of a segment is the foot of the perpendicular,
  moved to the nearer end when it falls outside; the nearest point of a polyline is the
  nearest among those of its segments, the earlier segment winning a tie.
\<close>

definition sq_dist :: "coord \<Rightarrow> coord \<Rightarrow> real" where
  "sq_dist p q = (fst p - fst q)\<^sup>2 + (snd p - snd q)\<^sup>2"

definition along :: "coord \<Rightarrow> coord \<Rightarrow> real \<Rightarrow> coord" where
  "along a b t = (fst a + t * (fst b - fst a), snd a + t * (snd b - snd a))"

definition on_polyline :: "coord list \<Rightarrow> coord \<Rightarrow> bool" where
  "on_polyline route q \<longleftrightarrow>
     (\<exists>i t. i + 1 < length route \<and> 0 \<le> t \<and> t \<le> 1 \<and> q = along (route ! i) (route ! (i + 1)) t)"

definition foot_param :: "coord \<Rightarrow> coord \<Rightarrow> coord \<Rightarrow> real" where
  "foot_param a b p =
     (if (fst b - fst a)\<^sup>2 + (snd b - snd a)\<^sup>2 = 0 then 0
      else max 0 (min 1
             (((fst p - fst a) * (fst b - fst a) + (snd p - snd a) * (snd b - snd a)) /
              ((fst b - fst a)\<^sup>2 + (snd b - snd a)\<^sup>2))))"

definition nearest_on_segment :: "coord \<Rightarrow> coord \<Rightarrow> coord \<Rightarrow> coord" where
  "nearest_on_segment a b p = along a b (foot_param a b p)"

fun nearest_on_polyline :: "coord list \<Rightarrow> coord \<Rightarrow> coord" where
  "nearest_on_polyline (a # b # rest) p =
     (if rest = [] then nearest_on_segment a b p
      else if sq_dist p (nearest_on_segment a b p) \<le> sq_dist p (nearest_on_polyline (b # rest) p)
           then nearest_on_segment a b p
           else nearest_on_polyline (b # rest) p)"
| "nearest_on_polyline [a] p = a"
| "nearest_on_polyline [] p = p"

subsection \<open>Sample inputs\<close>

text \<open>
  A collaborator for the concrete runs below. The engine's answer to the \<open>k\<close>-th call, for
  the path \<open>p\<close>, is \<open>answer k p\<close>; the body \<^verbatim>\<open>ok\<close> parses to a route whose geometry
  decodes to two points, the body \<^verbatim>\<open>no\<close> to the status \<^verbatim>\<open>NoRoute\<close>, and anything else is
  not JSON. \<open>nearest\<close> stands for the projection onto a polyline. The arithmetic is a
  stand-in that rewriting can evaluate: the four operators and the power are exact,
  a degree is a hundredth of a radian, and the sine, the square root and the arc tangent
  give back their (first) argument, the cosine \<open>1\<close>. The sample traces lie on the
  diagonal, \<open>pt x\<close> at latitude and longitude \<open>x\<close>, with coordinates that print as one
  digit.
\<close>

definition ok_json :: json where
  "ok_json = JObj [(''code'', JStr ''Ok''), (''routes'', JArr [JObj [(''geometry'', JStr ''g'')]])]"

definition noroute_json :: json where
  "noroute_json = JObj [(''code'', JStr ''NoRoute'')]"

definition digit_str :: "real \<Rightarrow> string" where
  "digit_str x = (if x = 0 then ''0'' else if x = 1 then ''1'' else if x = 2 then ''2''
                  else if x = 3 then ''3'' else if x = 4 then ''4'' else ''9'')"

definition sample_env :: "(nat \<Rightarrow> string \<Rightarrow> response) \<Rightarrow> (coord \<Rightarrow> coord) \<Rightarrow> env" where
  "sample_env answer nearest =
     \<lparr>forwardRouting = (\<lambda>k p t opts. answer k p),
      json_loads = (\<lambda>s. if s = ''ok'' then Some ok_json
                        else if s = ''no'' then Some noroute_json else None),
      polyline_decode = (\<lambda>j. if j = JStr ''g'' then Some [(0, 0), (1, 1)] else None),
      float_str = digit_str,
      line_nearest = (\<lambda>route p. Some (nearest p)),
      f_add = (\<lambda>x y. x + y), f_sub = (\<lambda>x y. x - y), f_mul = (\<lambda>x y. x * y),
      f_div = (\<lambda>x y. x / y), f_pow = (\<lambda>x n. x ^ n),
      math_radians = (\<lambda>x. x / 100), math_sin = (\<lambda>x. x), math_cos = (\<lambda>x. 1),
      math_sqrt = (\<lambda>x. x), math_atan2 = (\<lambda>y x. y)\<rparr>"

definition pt :: "real \<Rightarrow> geo_point" where
  "pt x = \<lparr>lat = x, lng = x\<rparr>"

text \<open>Three engines: one that finds no route to the point \<open>pt 2\<close>, one that answers
  \<^verbatim>\<open>NoRoute\<close> to its \<open>n\<close>-th call only, and one that answers \<^verbatim>\<open>NoRoute\<close> from its
  \<open>n\<close>-th call on.\<close>

definition unroutable_end :: "nat \<Rightarrow> string \<Rightarrow> response" where
  "unroutable_end k p = (if last p = CHR ''2'' then StrResponse ''no'' else StrResponse ''ok'')"

definition fails_at :: "nat \<Rightarrow> nat \<Rightarrow> string \<Rightarrow> response" where
  "fails_at n k p = (if k = n then StrResponse ''no'' else StrResponse ''ok'')"

definition fails_from :: "nat \<Rightarrow> nat \<Rightarrow> string \<Rightarrow> response" where
  "fails_from n k p = (if k < n then StrResponse ''ok'' else StrResponse ''no'')"

text \<open>An environment with exact arithmetic whose projection is the nearest point of the
  polyline. Its engine is of no interest.\<close>

definition exact_env :: env where
  "exact_env =
     \<lparr>forwardRouting = (\<lambda>k p t opts. OtherResponse),
      json_loads = (\<lambda>s. None),
      polyline_decode = (\<lambda>j. None),
      float_str = digit_str,
      line_nearest = (\<lambda>route p. if length route < 2 then None
                                  else Some (nearest_on_polyline route p)),
      f_add = (\<lambda>x y. x + y), f_sub = (\<lambda>x y. x - y), f_mul = (\<lambda>x y. x * y),
      f_div = (\<lambda>x y. x / y), f_pow = (\<lambda>x n. x ^ n),
      math_radians = (\<lambda>x. x * pi / 180), math_sin = sin, math_cos = cos,
      math_sqrt = sqrt, math_atan2 = atan2\<rparr>"

section \<open>Rules for the three loops\<close>

text \<open>
  Each loop ends, and ends in a result that satisfies \<open>Q\<close>, when some invariant \<open>I\<close>
  holds at its entry, is kept by every pass through its body and gives \<open>Q\<close> at each of
  its exits. The expansion loop needs a positive step: from step \<open>0\<close> it would probe the
  anchor for ever.
\<close>

lemma expand_rule:
  assumes "I lower step k" and "0 < step"
    and probe: "\<And>lower step k. I lower step k \<Longrightarrow> 0 < step \<Longrightarrow> a + step < length raw \<Longrightarrow>
           (case probe_valid E raw rt tt thr a (a + step) k of
              Inl e \<Rightarrow> Q (Inl e)
            | Inr ok \<Rightarrow> if ok then I (a + step) (step * 2) (k + 1)
                        else Q (Inr (lower, a + step, k + 1)))"
    and past_end: "\<And>lower step k. I lower step k \<Longrightarrow> length raw \<le> a + step \<Longrightarrow>
           Q (Inr (lower, length raw - 1, k))"
  shows "\<exists>r. expand E raw rt tt thr a lower step k = Some r \<and> Q r"
  using assms(1,2)
proof (induction "length raw - (a + step)" arbitrary: lower step k rule: less_induct)
  case less
  show ?case
  proof (cases "length raw \<le> a + step")
    case True
    then show ?thesis
      using past_end [OF less.prems(1) True] by (subst expand.simps) simp
  next
    case False
    then have lt: "a + step < length raw" by simp
    note p = probe [OF less.prems(1) less.prems(2) lt]
    show ?thesis
    proof (cases "probe_valid E raw rt tt thr a (a + step) k")
      case (Inl e)
      then show ?thesis using p False by (subst expand.simps) simp
    next
      case (Inr ok)
      show ?thesis
      proof (cases ok)
        case True
        have "length raw - (a + step * 2) < length raw - (a + step)"
          using lt less.prems(2) by simp
        moreover have "I (a + step) (step * 2) (k + 1)" using p Inr True by simp
        moreover have "0 < step * 2" using less.prems(2) by simp
        ultimately have "\<exists>r. expand E raw rt tt thr a (a + step) (step * 2) (k + 1) = Some r \<and> Q r"
          by (rule less.hyps)
        then show ?thesis using Inr True False by (subst expand.simps) simp
      next
        case F: False
        then show ?thesis using p Inr False by (subst expand.simps) simp
      qed
    qed
  qed
qed

lemma bsearch_rule:
  assumes "I lower upper best k"
    and probe: "\<And>lower upper best k. I lower upper best k \<Longrightarrow> lower \<le> upper \<Longrightarrow>
           a < (lower + upper) div 2 \<Longrightarrow>
           (case probe_valid E raw rt tt thr a ((lower + upper) div 2) k of
              Inl e \<Rightarrow> Q (Inl e)
            | Inr ok \<Rightarrow> if ok then I ((lower + upper) div 2 + 1) upper ((lower + upper) div 2) (k + 1)
                        else I lower ((lower + upper) div 2 - 1) best (k + 1))"
    and stop: "\<And>lower upper best k. I lower upper best k \<Longrightarrow>
           upper < lower \<or> (lower + upper) div 2 \<le> a \<Longrightarrow> Q (Inr (best, k))"
  shows "\<exists>r. bsearch E raw rt tt thr a lower upper best k = Some r \<and> Q r"
  using assms(1)
proof (induction "upper + 1 - lower" arbitrary: lower upper best k rule: less_induct)
  case less
  let ?mid = "(lower + upper) div 2"
  show ?case
  proof (cases "upper < lower \<or> ?mid \<le> a")
    case True
    then show ?thesis
      using stop [OF less.prems True] by (subst bsearch.simps) auto
  next
    case False
    then have le: "lower \<le> upper" and mid: "a < ?mid" by simp_all
    note p = probe [OF less.prems le mid]
    show ?thesis
    proof (cases "probe_valid E raw rt tt thr a ?mid k")
      case (Inl e)
      then show ?thesis using p le mid by (subst bsearch.simps) simp
    next
      case (Inr ok)
      show ?thesis
      proof (cases ok)
        case True
        have "upper + 1 - (?mid + 1) < upper + 1 - lower" using le by simp
        moreover have "I (?mid + 1) upper ?mid (k + 1)" using p Inr True by simp
        ultimately have "\<exists>r. bsearch E raw rt tt thr a (?mid + 1) upper ?mid (k + 1) = Some r \<and> Q r"
          by (rule less.hyps)
        then show ?thesis using Inr True le mid by (subst bsearch.simps) simp
      next
        case F: False
        have "?mid - 1 + 1 - lower < upper + 1 - lower" using le mid by simp
        moreover have "I lower (?mid - 1) best (k + 1)" using p Inr F by simp
        ultimately have "\<exists>r. bsearch E raw rt tt thr a lower (?mid - 1) best (k + 1) = Some r \<and> Q r"
          by (rule less.hyps)
        then show ?thesis using Inr F le mid by (subst bsearch.simps) simp
      qed
    qed
  qed
qed

lemma main_loop_rule:
  assumes "I s"
    and body: "\<And>s. I s \<Longrightarrow> anchor s < length raw - 1 \<Longrightarrow>
           \<exists>r. advance E raw rt tt thr s = Some r \<and>
               (case r of Inl e \<Rightarrow> Q (Inl e) | Inr s' \<Rightarrow> I s' \<and> anchor s < anchor s')"
    and stop: "\<And>s. I s \<Longrightarrow> \<not> anchor s < length raw - 1 \<Longrightarrow> Q (Inr s)"
  shows "\<exists>r. main_loop E raw rt tt thr s = Some r \<and> Q r"
  using assms(1)
proof (induction "length raw - 1 - anchor s" arbitrary: s rule: less_induct)
  case less
  show ?case
  proof (cases "anchor s < length raw - 1")
    case False
    then show ?thesis using stop [OF less.prems False] by (subst main_loop.simps) simp
  next
    case True
    from body [OF less.prems True] obtain r where
      r: "advance E raw rt tt thr s = Some r"
      and post: "case r of Inl e \<Rightarrow> Q (Inl e) | Inr s' \<Rightarrow> I s' \<and> anchor s < anchor s'"
      by blast
    show ?thesis
    proof (cases r)
      case (Inl e)
      then show ?thesis using r post True by (subst main_loop.simps) simp
    next
      case (Inr s')
      then have "I s'" and "anchor s < anchor s'" using post by simp_all
      then have "\<exists>r. main_loop E raw rt tt thr s' = Some r \<and> Q r"
        using True by (intro less.hyps) simp_all
      then show ?thesis using r Inr True by (subst main_loop.simps) simp
    qed
  qed
qed

section \<open>Every iteration ends and moves the anchor forward\<close>

lemma expand_bounds:
  assumes "a < length raw - 1"
  shows "\<exists>r. expand E raw rt tt thr a a 1 k = Some r \<and>
           (case r of Inl e \<Rightarrow> True
            | Inr (lo, up, k') \<Rightarrow> a \<le> lo \<and> lo < length raw \<and> up < length raw \<and> k \<le> k')"
proof (rule expand_rule [where I = "\<lambda>lower step k'. a \<le> lower \<and> lower < length raw \<and> k \<le> k'"])
  show "a \<le> a \<and> a < length raw \<and> k \<le> k" using assms by simp
  show "0 < (1::nat)" by simp
next
  fix lower step k'
  assume "a \<le> lower \<and> lower < length raw \<and> k \<le> k'" "a + step < length raw"
  then show "case probe_valid E raw rt tt thr a (a + step) k' of
      Inl e \<Rightarrow> (case Inl e of Inl e \<Rightarrow> True
            | Inr (lo, up, k') \<Rightarrow> a \<le> lo \<and> lo < length raw \<and> up < length raw \<and> k \<le> k')
    | Inr ok \<Rightarrow> if ok then a \<le> a + step \<and> a + step < length raw \<and> k \<le> k' + 1
        else (case Inr (lower, a + step, k' + 1) of Inl e \<Rightarrow> True
            | Inr (lo, up, k') \<Rightarrow> a \<le> lo \<and> lo < length raw \<and> up < length raw \<and> k \<le> k')"
    by (simp split: sum.splits)
next
  fix lower step k'
  assume "a \<le> lower \<and> lower < length raw \<and> k \<le> k'"
  then show "case Inr (lower, length raw - 1, k') of Inl e \<Rightarrow> True
            | Inr (lo, up, k') \<Rightarrow> a \<le> lo \<and> lo < length raw \<and> up < length raw \<and> k \<le> k'"
    using assms by simp
qed

lemma bsearch_bounds:
  assumes "a \<le> lo" "lo < length raw" "up < length raw"
  shows "\<exists>r. bsearch E raw rt tt thr a lo up lo k = Some r \<and>
           (case r of Inl e \<Rightarrow> True
            | Inr (best, k') \<Rightarrow> a \<le> best \<and> best < length raw \<and> k \<le> k')"
proof (rule bsearch_rule [where I = "\<lambda>lower upper best k'.
         a \<le> best \<and> best < length raw \<and> upper < length raw \<and> k \<le> k'"])
  show "a \<le> lo \<and> lo < length raw \<and> up < length raw \<and> k \<le> k" using assms by simp
next
  fix lower upper best k'
  assume "a \<le> best \<and> best < length raw \<and> upper < length raw \<and> k \<le> k'"
    "lower \<le> upper" "a < (lower + upper) div 2"
  then show "case probe_valid E raw rt tt thr a ((lower + upper) div 2) k' of
      Inl e \<Rightarrow> (case Inl e of Inl e \<Rightarrow> True
            | Inr (best, k') \<Rightarrow> a \<le> best \<and> best < length raw \<and> k \<le> k')
    | Inr ok \<Rightarrow> if ok then a \<le> (lower + upper) div 2 \<and> (lower + upper) div 2 < length raw \<and>
                          upper < length raw \<and> k \<le> k' + 1
        else a \<le> best \<and> best < length raw \<and> (lower + upper) div 2 - 1 < length raw \<and> k \<le> k' + 1"
    by (auto split: sum.splits)
next
  fix lower upper best k'
  assume "a \<le> best \<and> best < length raw \<and> upper < length raw \<and> k \<le> k'"
  then show "case Inr (best, k') of Inl e \<Rightarrow> True
            | Inr (best, k') \<Rightarrow> a \<le> best \<and> best < length raw \<and> k \<le> k'"
    by simp
qed

lemma find_best_bounds:
  assumes "a < length raw - 1"
  shows "\<exists>r. find_best E raw rt tt thr a k = Some r \<and>
           (case r of Inl e \<Rightarrow> True
            | Inr (best, k') \<Rightarrow> a \<le> best \<and> best < length raw \<and> k \<le> k')"
proof -
  from expand_bounds [OF assms, of E rt tt thr k] obtain r where
    r: "expand E raw rt tt thr a a 1 k = Some r"
    and post: "case r of Inl e \<Rightarrow> True
            | Inr (lo, up, k') \<Rightarrow> a \<le> lo \<and> lo < length raw \<and> up < length raw \<and> k \<le> k'"
    by blast
  show ?thesis
  proof (cases r)
    case (Inl e)
    then show ?thesis using r by (simp add: find_best_def)
  next
    case (Inr t)
    obtain lo up k1 where t: "t = (lo, up, k1)" by (cases t)
    have b: "a \<le> lo" "lo < length raw" "up < length raw" "k \<le> k1" using post Inr t by simp_all
    from bsearch_bounds [OF b(1-3), of E rt tt thr k1] obtain r2 where
      r2: "bsearch E raw rt tt thr a lo up lo k1 = Some r2"
      and post2: "case r2 of Inl e \<Rightarrow> True
            | Inr (best, k') \<Rightarrow> a \<le> best \<and> best < length raw \<and> k1 \<le> k'"
      by blast
    have "find_best E raw rt tt thr a k = Some r2"
      using r Inr t r2 by (simp add: find_best_def)
    moreover have "case r2 of Inl e \<Rightarrow> True
            | Inr (best, k') \<Rightarrow> a \<le> best \<and> best < length raw \<and> k \<le> k'"
      using post2 b(4) by (auto split: sum.splits)
    ultimately show ?thesis by blast
  qed
qed

text \<open>One iteration of the main loop ends. When it does not raise it has moved the anchor
  forward, inside the trace: by one, appending nothing, or to the endpoint of a segment the
  router just answered with, which it appends.\<close>

lemma advance_total:
  assumes "anchor s < length raw - 1"
  shows "\<exists>r. advance E raw rt tt thr s = Some r \<and>
           (case r of Inl e \<Rightarrow> True
            | Inr s' \<Rightarrow> anchor s < anchor s' \<and> anchor s' < length raw \<and> calls s \<le> calls s' \<and>
                ((anchor s' = anchor s + 1 \<and> key_waypoints_coords s' = key_waypoints_coords s \<and>
                  final_route_coords s' = final_route_coords s) \<or>
                 (key_waypoints_coords s' = key_waypoints_coords s @ [coord_of (raw ! anchor s')] \<and>
                  (\<exists>k cs. get_route_via_forward_routing E k rt
                             [coord_of (raw ! anchor s), coord_of (raw ! anchor s')] tt = Inr (Some cs) \<and>
                           final_route_coords s' = final_route_coords s @ butlast cs))))"
proof -
  from find_best_bounds [OF assms, of E rt tt thr "calls s"] obtain r where
    r: "find_best E raw rt tt thr (anchor s) (calls s) = Some r"
    and post: "case r of Inl e \<Rightarrow> True
            | Inr (best, k') \<Rightarrow> anchor s \<le> best \<and> best < length raw \<and> calls s \<le> k'"
    by blast
  show ?thesis
  proof (cases r)
    case (Inl e)
    then show ?thesis using r by (simp add: advance_def)
  next
    case (Inr t)
    obtain best k where t: "t = (best, k)" by (cases t)
    have b: "anchor s \<le> best" "best < length raw" "calls s \<le> k" using post Inr t by simp_all
    show ?thesis
    proof (cases "best \<le> anchor s")
      case True
      then show ?thesis using r Inr t b assms by (simp add: advance_def)
    next
      case False
      show ?thesis
      proof (cases "get_route_via_forward_routing E k rt
                      [coord_of (raw ! anchor s), coord_of (raw ! best)] tt")
        case (Inl e)
        then show ?thesis using r Inr t False by (simp add: advance_def)
      next
        case inr: (Inr sc)
        show ?thesis
        proof (cases sc)
          case None
          then show ?thesis using r Inr t False inr by (simp add: advance_def)
        next
          case (Some cs)
          then show ?thesis using r Inr t False inr b by (auto simp: advance_def)
        qed
      qed
    qed
  qed
qed


lemma build_result_fields:
  assumes "build_result E raw s = Inr r"
  shows "waypoints r = map point_of (key_waypoints_coords s)"
    and "path r = map point_of (final_route_coords s @ [last (key_waypoints_coords s)])"
    and "reroute_count r = int (length (key_waypoints_coords s)) - 2"
  using assms by (auto simp: build_result_def split: sum.splits)

section \<open>Invariants of a run\<close>

lemma advance_progress:
  assumes "anchor s < length raw - 1"
  shows "\<exists>r. advance E raw rt tt thr s = Some r \<and>
           (case r of Inl e \<Rightarrow> True | Inr s' \<Rightarrow> anchor s < anchor s')"
  using advance_total [OF assms, of E rt tt thr] by (auto split: sum.splits)

lemma reaches_main_loop:
  "reaches E raw rt tt thr s t \<Longrightarrow> main_loop E raw rt tt thr s = main_loop E raw rt tt thr t"
proof (induction rule: reaches.induct)
  case (start s)
  show ?case by simp
next
  case (iterate s t u)
  have "main_loop E raw rt tt thr t = main_loop E raw rt tt thr u"
    using iterate.hyps(2,3) by (subst main_loop.simps) simp
  then show ?case using iterate.IH by simp
qed

lemma main_loop_reaches:
  "\<exists>r. main_loop E raw rt tt thr s = Some r \<and>
       (case r of Inl e \<Rightarrow> True
        | Inr t \<Rightarrow> reaches E raw rt tt thr s t \<and> \<not> anchor t < length raw - 1)"
proof (rule main_loop_rule [where I = "\<lambda>t. reaches E raw rt tt thr s t"])
  show "reaches E raw rt tt thr s s" by (rule reaches.start)
next
  fix t
  assume r: "reaches E raw rt tt thr s t" and g: "anchor t < length raw - 1"
  from advance_progress [OF g, of E rt tt thr] obtain res where
    res: "advance E raw rt tt thr t = Some res"
    and post: "case res of Inl e \<Rightarrow> True | Inr u \<Rightarrow> anchor t < anchor u"
    by blast
  show "\<exists>r. advance E raw rt tt thr t = Some r \<and>
          (case r of Inl e \<Rightarrow> (case Inl e of Inl e \<Rightarrow> True
                | Inr t \<Rightarrow> reaches E raw rt tt thr s t \<and> \<not> anchor t < length raw - 1)
           | Inr s' \<Rightarrow> reaches E raw rt tt thr s s' \<and> anchor t < anchor s')"
  proof (cases res)
    case (Inl e)
    then show ?thesis using res by simp
  next
    case (Inr u)
    then have "reaches E raw rt tt thr s u"
      using reaches.iterate [OF r g] res by simp
    then show ?thesis using res Inr post by simp
  qed
next
  fix t
  assume "reaches E raw rt tt thr s t" "\<not> anchor t < length raw - 1"
  then show "case Inr t of Inl e \<Rightarrow> True
        | Inr t \<Rightarrow> reaches E raw rt tt thr s t \<and> \<not> anchor t < length raw - 1"
    by simp
qed

lemma clean_success_state:
  assumes "clean_gps_route E raw tt thr = Some (Inr (Success r, c))"
  shows "2 \<le> length raw \<and>
         (\<exists>t. reaches E raw (get_router_type tt) tt thr (initial_state raw) t \<and>
              \<not> anchor t < length raw - 1 \<and> build_result E raw t = Inr r \<and> c = calls t)"
proof -
  have len: "2 \<le> length raw"
    using assms by (auto simp: clean_gps_route_def split: if_splits)
  from main_loop_reaches [of E raw "get_router_type tt" tt thr "initial_state raw"]
  obtain res where
    res: "main_loop E raw (get_router_type tt) tt thr (initial_state raw) = Some res"
    and post: "case res of Inl e \<Rightarrow> True
        | Inr t \<Rightarrow> reaches E raw (get_router_type tt) tt thr (initial_state raw) t \<and>
                   \<not> anchor t < length raw - 1"
    by blast
  show ?thesis
  proof (cases res)
    case (Inl e)
    then show ?thesis using assms len res by (simp add: clean_gps_route_def)
  next
    case (Inr t)
    then have "build_result E raw t = Inr r" "c = calls t"
      using assms len res by (auto simp: clean_gps_route_def split: sum.splits)
    then show ?thesis using len post Inr by auto
  qed
qed

lemma reaches_step_facts:
  assumes "anchor t < length raw - 1" "advance E raw rt tt thr t = Some (Inr u)"
  shows "anchor t < anchor u" "anchor u < length raw" "calls t \<le> calls u"
    "(anchor u = anchor t + 1 \<and> key_waypoints_coords u = key_waypoints_coords t \<and>
      final_route_coords u = final_route_coords t) \<or>
     (key_waypoints_coords u = key_waypoints_coords t @ [coord_of (raw ! anchor u)] \<and>
      (\<exists>k cs. get_route_via_forward_routing E k rt
                 [coord_of (raw ! anchor t), coord_of (raw ! anchor u)] tt = Inr (Some cs) \<and>
               final_route_coords u = final_route_coords t @ butlast cs))"
  using advance_total [OF assms(1), of E rt tt thr] assms(2) by auto

lemma reaches_anchor_mono:
  "reaches E raw rt tt thr s t \<Longrightarrow> anchor s \<le> anchor t"
proof (induction rule: reaches.induct)
  case (start s)
  show ?case by simp
next
  case (iterate s t u)
  then show ?case using reaches_step_facts(1) [OF iterate.hyps(2,3)] by simp
qed

lemma reaches_waypoint_indices:
  assumes "reaches E raw rt tt thr s t" "s = initial_state raw" "2 \<le> length raw"
  shows "\<exists>idxs. idxs \<noteq> [] \<and> hd idxs = 0 \<and> sorted_wrt (<) idxs \<and>
           list_all (\<lambda>i. i \<le> anchor t) idxs \<and> anchor t < length raw \<and>
           key_waypoints_coords t = map (\<lambda>i. coord_of (raw ! i)) idxs"
  using assms
proof (induction rule: reaches.induct)
  case (start s)
  then show ?case
    by (intro exI [of _ "[0]"]) (auto simp: initial_state_def)
next
  case (iterate s t u)
  then obtain idxs where idxs: "idxs \<noteq> []" "hd idxs = 0" "sorted_wrt (<) idxs"
    "list_all (\<lambda>i. i \<le> anchor t) idxs" "key_waypoints_coords t = map (\<lambda>i. coord_of (raw ! i)) idxs"
    by blast
  note f = reaches_step_facts [OF iterate.hyps(2,3)]
  from f(4) show ?case
  proof
    assume "anchor u = anchor t + 1 \<and> key_waypoints_coords u = key_waypoints_coords t \<and>
      final_route_coords u = final_route_coords t"
    then show ?thesis using idxs f(2)
      by (intro exI [of _ idxs]) (auto simp: list_all_iff)
  next
    assume "key_waypoints_coords u = key_waypoints_coords t @ [coord_of (raw ! anchor u)] \<and>
      (\<exists>k cs. get_route_via_forward_routing E k rt
                 [coord_of (raw ! anchor t), coord_of (raw ! anchor u)] tt = Inr (Some cs) \<and>
               final_route_coords u = final_route_coords t @ butlast cs)"
    then show ?thesis using idxs f(1,2)
      by (intro exI [of _ "idxs @ [anchor u]"]) (auto simp: list_all_iff sorted_wrt_append)
  qed
qed



lemma commits_of_reaches:
  "commits_of E raw rt tt thr s t cs \<Longrightarrow> reaches E raw rt tt thr s t"
  by (induction rule: commits_of.induct) (auto intro: reaches.intros)



section \<open>Evaluating concrete runs\<close>

lemmas run_simps =
  clean_gps_route_def main_loop.simps advance_def find_best_def expand.simps bsearch.simps
  probe_valid_def validate_segment_def slice_def
  get_route_via_forward_routing_def routing_result_def decoded_route_def first_route_def
  router_path_def router_options_def get_router_type_def router_mapping_def
  sample_env_def ok_json_def noroute_json_def digit_str_def fails_at_def fails_from_def unroutable_end_def
  initial_state_def build_result_def calculate_path_distance_coords_def
  haversine_distance_def haversine_a_def py_sqrt_def power2_eq_square
  pt_def coord_of_def point_of_def

lemma point_of_coord_of [simp]: "point_of (coord_of p) = p"
  by (simp add: point_of_def coord_of_def)

lemma coord_of_point_of [simp]: "coord_of (point_of c) = c"
  by (simp add: point_of_def coord_of_def)

section \<open>Input shorter than two points\<close>

text \<open>
  Claim C2. A trace with fewer than two points is answered at once with
  \<^verbatim>\<open>{success: False, error: "Need at least 2 waypoints"}\<close>, whatever the collaborator is,
  and the number of routing calls made is zero.
\<close>

theorem short_trace_fails_without_routing:
  "length raw < 2 \<Longrightarrow>
   clean_gps_route E raw trip_type threshold = Some (Inr (Failure ''Need at least 2 waypoints'', 0))"
  by (simp add: clean_gps_route_def)

theorem short_trace_fails_without_routing_witness:
  "length [pt 7] < 2 \<and>
   clean_gps_route (sample_env (\<lambda>k p. OtherResponse) id) [pt 7] ''car'' 500 =
     Some (Inr (Failure ''Need at least 2 waypoints'', 0))"
  using short_trace_fails_without_routing [of "[pt 7]" "sample_env (\<lambda>k p. OtherResponse) id" "''car''" 500]
  by simp

section \<open>The reroute count\<close>

text \<open>
  Claim C3, as stated, is false: the value is \<^verbatim>\<open>len(key_waypoints) - 2\<close> with no clamp.
  On a trace of two points that the engine cannot connect, the run succeeds with the single
  key waypoint \<^verbatim>\<open>RawTrace[0]\<close> and a reroute count of \<open>-1\<close>.
\<close>

theorem reroute_count_negative_counterexample:
  "clean_gps_route (sample_env (\<lambda>k p. StrResponse ''no'') id) [pt 0, pt 1] ''train'' 500 =
     Some (Inr (Success \<lparr>waypoints = [pt 0], path = [pt 0], distance = 0, duration = 0,
                         reroute_count = - 1, compression_ratio = 2\<rparr>, 1))"
  by (simp add: run_simps)

text \<open>
  Claim C3, amended. In every successful result the reroute count is the number of key
  waypoints minus two. It is never below \<open>-1\<close>, and it is \<open>-1\<close> exactly when no segment
  was committed, the key waypoints being \<^verbatim>\<open>RawTrace[0]\<close> alone.
\<close>

theorem reroute_count_value:
  assumes "clean_gps_route E raw trip_type threshold = Some (Inr (Success r, c))"
  shows "reroute_count r = int (length (waypoints r)) - 2 \<and> - 1 \<le> reroute_count r \<and>
         (reroute_count r = - 1 \<longleftrightarrow> waypoints r = [raw ! 0])"
proof -
  from clean_success_state [OF assms] obtain t where
    len: "2 \<le> length raw"
    and t: "reaches E raw (get_router_type trip_type) trip_type threshold (initial_state raw) t"
    and r: "build_result E raw t = Inr r"
    by blast
  from reaches_waypoint_indices [OF t refl len] obtain idxs where
    idxs: "idxs \<noteq> []" "hd idxs = 0" "key_waypoints_coords t = map (\<lambda>i. coord_of (raw ! i)) idxs"
    by blast
  have w: "waypoints r = map (\<lambda>i. raw ! i) idxs"
    using build_result_fields(1) [OF r] idxs(3) by simp
  have rc: "reroute_count r = int (length (waypoints r)) - 2"
    using build_result_fields(1,3) [OF r] by simp
  have "length (waypoints r) = 1 \<longleftrightarrow> waypoints r = [raw ! 0]"
    using w idxs(1,2) by (cases idxs) auto
  moreover have "1 \<le> length (waypoints r)"
    using w idxs(1) by (cases idxs) auto
  ultimately show ?thesis using rc by auto
qed

theorem reroute_count_value_witness:
  "reroute_count \<lparr>waypoints = [pt 0, pt 2], path = [pt 0, pt 2], distance = 12742 / 5, duration = 0,
                   reroute_count = 0, compression_ratio = 3 / 2\<rparr> =
     int (length [pt 0, pt 2]) - 2 \<and>
   clean_gps_route (sample_env (\<lambda>k p. StrResponse ''ok'') id) [pt 0, pt 1, pt 2] ''train'' 500 =
     Some (Inr (Success \<lparr>waypoints = [pt 0, pt 2], path = [pt 0, pt 2], distance = 12742 / 5, duration = 0,
                         reroute_count = 0, compression_ratio = 3 / 2\<rparr>, 4))"
proof -
  have run: "clean_gps_route (sample_env (\<lambda>k p. StrResponse ''ok'') id) [pt 0, pt 1, pt 2] ''train'' 500 =
     Some (Inr (Success \<lparr>waypoints = [pt 0, pt 2], path = [pt 0, pt 2], distance = 12742 / 5, duration = 0,
                         reroute_count = 0, compression_ratio = 3 / 2\<rparr>, 4))"
    by (simp add: run_simps)
  from reroute_count_value [OF run] show ?thesis using run by simp
qed

section \<open>The anchor and the indices of the key waypoints\<close>

text \<open>
  Claim C4. Along any run of the main loop from its initial state, a later state never has
  a smaller anchor than an earlier one, and the key waypoints of every state passed are the
  raw points at a strictly increasing list of indices that starts with \<open>0\<close> and stays
  at or below the anchor.
\<close>

theorem anchor_and_waypoint_indices_increase:
  assumes "2 \<le> length raw"
    and "reaches E raw (get_router_type trip_type) trip_type threshold (initial_state raw) s"
    and "reaches E raw (get_router_type trip_type) trip_type threshold s t"
  shows "anchor s \<le> anchor t \<and>
         (\<exists>idxs. idxs \<noteq> [] \<and> hd idxs = 0 \<and> sorted_wrt (<) idxs \<and>
            list_all (\<lambda>i. i \<le> anchor t \<and> i < length raw) idxs \<and>
            key_waypoints_coords t = map (\<lambda>i. coord_of (raw ! i)) idxs)"
proof -
  have st: "reaches E raw (get_router_type trip_type) trip_type threshold (initial_state raw) t"
    using assms(2,3)
  proof -
    show ?thesis using assms(3,2)
      by (induction rule: reaches.induct) (auto intro: reaches.iterate)
  qed
  from reaches_waypoint_indices [OF st refl assms(1)] obtain idxs where
    "idxs \<noteq> []" "hd idxs = 0" "sorted_wrt (<) idxs" "list_all (\<lambda>i. i \<le> anchor t) idxs"
    "anchor t < length raw" "key_waypoints_coords t = map (\<lambda>i. coord_of (raw ! i)) idxs"
    by blast
  then have "idxs \<noteq> [] \<and> hd idxs = 0 \<and> sorted_wrt (<) idxs \<and>
            list_all (\<lambda>i. i \<le> anchor t \<and> i < length raw) idxs \<and>
            key_waypoints_coords t = map (\<lambda>i. coord_of (raw ! i)) idxs"
    by (auto simp: list_all_iff)
  then show ?thesis using reaches_anchor_mono [OF assms(3)] by blast
qed

theorem anchor_and_waypoint_indices_increase_witness:
  "anchor \<lparr>anchor = 1, key_waypoints_coords = [(0, 0)], final_route_coords = [], calls = 1\<rparr>
     \<le> anchor \<lparr>anchor = 2, key_waypoints_coords = [(0, 0), (2, 2)], final_route_coords = [(0, 0)], calls = 4\<rparr> \<and>
   (\<exists>idxs. idxs \<noteq> [] \<and> hd idxs = 0 \<and> sorted_wrt (<) idxs \<and>
      list_all (\<lambda>i. i \<le> 2 \<and> i < length [pt 0, pt 1, pt 2]) idxs \<and>
      [(0, 0), (2, 2)] = map (\<lambda>i. coord_of ([pt 0, pt 1, pt 2] ! i)) idxs)"
proof -
  let ?E = "sample_env (fails_at 0) id"
  let ?raw = "[pt 0, pt 1, pt 2]"
  let ?s = "\<lparr>anchor = 1, key_waypoints_coords = [(0, 0)], final_route_coords = [], calls = 1\<rparr>"
  let ?t = "\<lparr>anchor = 2, key_waypoints_coords = [(0, 0), (2, 2)], final_route_coords = [(0, 0)], calls = 4\<rparr>"
  have len: "2 \<le> length ?raw" by simp
  have s: "reaches ?E ?raw (get_router_type ''train'') ''train'' 500 (initial_state ?raw) ?s"
    by (rule reaches.iterate [OF reaches.start]) (simp_all add: run_simps)
  have t: "reaches ?E ?raw (get_router_type ''train'') ''train'' 500 ?s ?t"
    by (rule reaches.iterate [OF reaches.start]) (simp_all add: run_simps)
  from anchor_and_waypoint_indices_increase [OF len s t] show ?thesis by simp
qed

section \<open>The search under a monotone validity oracle\<close>

text \<open>
  The oracle of the search from anchor \<open>a\<close> is the probe: index \<open>i\<close> is valid when
  \<open>probe_valid \<dots> a i\<close> answers \<open>True\<close>. It is an oracle of the index alone when the
  collaborator answers a query the same way whenever it is asked.
\<close>

lemma get_route_deterministic:
  assumes "\<forall>k p t opts. forwardRouting E k p t opts = forwardRouting E 0 p t opts"
  shows "get_route_via_forward_routing E k rt wps tt = get_route_via_forward_routing E 0 rt wps tt"
proof -
  have "forwardRouting E k (router_path E rt wps) tt (router_options rt wps) =
        forwardRouting E 0 (router_path E rt wps) tt (router_options rt wps)"
    using assms by blast
  then have "routing_result E k rt wps tt = routing_result E 0 rt wps tt"
    by (simp only: routing_result_def)
  then show ?thesis by (simp add: get_route_via_forward_routing_def)
qed

lemma probe_valid_deterministic:
  assumes "\<forall>k p t opts. forwardRouting E k p t opts = forwardRouting E 0 p t opts"
  shows "probe_valid E raw rt tt thr a i k = probe_valid E raw rt tt thr a i 0"
  by (simp only: probe_valid_def
      get_route_deterministic [OF assms, of k rt "[coord_of (raw ! a), coord_of (raw ! i)]" tt])

lemma probe_valid_route:
  assumes "probe_valid E raw rt tt thr a i k = Inr True"
  shows "\<exists>cs. get_route_via_forward_routing E k rt [coord_of (raw ! a), coord_of (raw ! i)] tt =
           Inr (Some cs)"
  using assms by (auto simp: probe_valid_def split: sum.splits option.splits if_splits)

lemma expand_monotone:
  assumes det: "\<forall>k p t opts. forwardRouting E k p t opts = forwardRouting E 0 p t opts"
    and noerr: "\<forall>i. a < i \<and> i < length raw \<longrightarrow> (\<exists>b. probe_valid E raw rt tt thr a i 0 = Inr b)"
    and a: "a < length raw - 1"
  shows "\<exists>lo up k'. expand E raw rt tt thr a a 1 k = Some (Inr (lo, up, k')) \<and>
           lo < length raw \<and> up < length raw \<and>
           ((lo = a \<and> probe_valid E raw rt tt thr a (a + 1) 0 = Inr False) \<or>
            (a < lo \<and> probe_valid E raw rt tt thr a lo 0 = Inr True)) \<and>
           (up = length raw - 1 \<or> (a < up \<and> probe_valid E raw rt tt thr a up 0 = Inr False))"
proof -
  let ?Q = "\<lambda>r. \<exists>lo up k'. r = Inr (lo, up, k') \<and>
           lo < length raw \<and> up < length raw \<and>
           ((lo = a \<and> probe_valid E raw rt tt thr a (a + 1) 0 = Inr False) \<or>
            (a < lo \<and> probe_valid E raw rt tt thr a lo 0 = Inr True)) \<and>
           (up = length raw - 1 \<or> (a < up \<and> probe_valid E raw rt tt thr a up 0 = Inr False))"
  have "\<exists>r. expand E raw rt tt thr a a 1 k = Some r \<and> ?Q r"
  proof (rule expand_rule [where I = "\<lambda>lower step k'.
         (lower = a \<and> step = 1) \<or>
         (a < lower \<and> lower < length raw \<and> probe_valid E raw rt tt thr a lower 0 = Inr True)"])
    show "(a = a \<and> (1::nat) = 1) \<or>
         (a < a \<and> a < length raw \<and> probe_valid E raw rt tt thr a a 0 = Inr True)" by simp
    show "0 < (1::nat)" by simp
  next
    fix lower step k'
    assume I: "(lower = a \<and> step = 1) \<or>
         (a < lower \<and> lower < length raw \<and> probe_valid E raw rt tt thr a lower 0 = Inr True)"
      and step: "0 < step" and lt: "a + step < length raw"
    from noerr step lt obtain b where b0: "probe_valid E raw rt tt thr a (a + step) 0 = Inr b"
      by (metis less_add_same_cancel1)
    have b: "probe_valid E raw rt tt thr a (a + step) k' = Inr b"
      by (subst probe_valid_deterministic [OF det]) (rule b0)
    show "case probe_valid E raw rt tt thr a (a + step) k' of
        Inl e \<Rightarrow> ?Q (Inl e)
      | Inr ok \<Rightarrow> if ok then (a + step = a \<and> step * 2 = 1) \<or>
           (a < a + step \<and> a + step < length raw \<and>
            probe_valid E raw rt tt thr a (a + step) 0 = Inr True)
          else ?Q (Inr (lower, a + step, k' + 1))"
    proof (cases b)
      case True
      then show ?thesis using b b0 step lt by simp
    next
      case False
      then show ?thesis using b b0 step lt I a by auto
    qed
  next
    fix lower step k'
    assume I: "(lower = a \<and> step = 1) \<or>
         (a < lower \<and> lower < length raw \<and> probe_valid E raw rt tt thr a lower 0 = Inr True)"
      and ge: "length raw \<le> a + step"
    then show "?Q (Inr (lower, length raw - 1, k'))" using a by auto
  qed
  then show ?thesis by blast
qed

lemma bsearch_monotone:
  assumes det: "\<forall>k p t opts. forwardRouting E k p t opts = forwardRouting E 0 p t opts"
    and noerr: "\<forall>i. a < i \<and> i < length raw \<longrightarrow> (\<exists>b. probe_valid E raw rt tt thr a i 0 = Inr b)"
    and mono: "\<forall>i j. a < i \<and> i < j \<and> j < length raw \<and>
                 probe_valid E raw rt tt thr a j 0 = Inr True \<longrightarrow>
                 probe_valid E raw rt tt thr a i 0 = Inr True"
    and a: "a < length raw - 1"
    and lo: "lo < length raw" "up < length raw"
      "(lo = a \<and> probe_valid E raw rt tt thr a (a + 1) 0 = Inr False) \<or>
       (a < lo \<and> probe_valid E raw rt tt thr a lo 0 = Inr True)"
      "up = length raw - 1 \<or> (a < up \<and> probe_valid E raw rt tt thr a up 0 = Inr False)"
  shows "\<exists>best k'. bsearch E raw rt tt thr a lo up lo k = Some (Inr (best, k')) \<and>
           best < length raw \<and>
           (best = a \<or> (a < best \<and> probe_valid E raw rt tt thr a best 0 = Inr True)) \<and>
           (\<forall>i. best < i \<and> i < length raw \<longrightarrow> probe_valid E raw rt tt thr a i 0 \<noteq> Inr True)"
proof -
  let ?V = "\<lambda>i. probe_valid E raw rt tt thr a i 0 = Inr True"
  let ?Q = "\<lambda>r. \<exists>best k'. r = Inr (best, k') \<and> best < length raw \<and>
           (best = a \<or> (a < best \<and> ?V best)) \<and>
           (\<forall>i. best < i \<and> i < length raw \<longrightarrow> \<not> ?V i)"
  let ?I = "\<lambda>lower upper best (k'::nat).
           best < length raw \<and> upper < length raw \<and>
           (best = a \<or> (a < best \<and> ?V best)) \<and>
           lower \<le> best + 1 \<and>
           (\<forall>i. upper < i \<and> i < length raw \<longrightarrow> \<not> ?V i) \<and>
           (a < lower \<or> (\<forall>i. a < i \<and> i < length raw \<longrightarrow> \<not> ?V i))"
  have above: "\<not> ?V i" if "a < m" "\<not> ?V m" "m \<le> i" "i < length raw" for m i
  proof (cases "m = i")
    case True
    then show ?thesis using that by simp
  next
    case False
    then have "m < i" using that by simp
    then show ?thesis using mono that by blast
  qed
  have "\<exists>r. bsearch E raw rt tt thr a lo up lo k = Some r \<and> ?Q r"
  proof (rule bsearch_rule [where I = ?I])
    have up: "\<forall>i. up < i \<and> i < length raw \<longrightarrow> \<not> ?V i"
    proof (intro allI impI)
      fix i assume i: "up < i \<and> i < length raw"
      from lo(4) show "\<not> ?V i"
      proof
        assume "up = length raw - 1" then show ?thesis using i by auto
      next
        assume "a < up \<and> probe_valid E raw rt tt thr a up 0 = Inr False"
        then show ?thesis using above [of up i] i by simp
      qed
    qed
    have none: "a < lo \<or> (\<forall>i. a < i \<and> i < length raw \<longrightarrow> \<not> ?V i)"
    proof (cases "a < lo")
      case True then show ?thesis by simp
    next
      case False
      then have f: "probe_valid E raw rt tt thr a (a + 1) 0 = Inr False" using lo(3) by auto
      have "\<not> ?V i" if "a < i \<and> i < length raw" for i
        using above [of "a + 1" i] f that by simp
      then show ?thesis by blast
    qed
    show "?I lo up lo k" using lo up none by auto
  next
    fix lower upper best k'
    assume I: "?I lower upper best k'" and le: "lower \<le> upper"
      and mid: "a < (lower + upper) div 2"
    let ?mid = "(lower + upper) div 2"
    have midlt: "?mid < length raw" using I le by auto
    from noerr mid midlt obtain b where b0: "probe_valid E raw rt tt thr a ?mid 0 = Inr b"
      by blast
    have b: "probe_valid E raw rt tt thr a ?mid k' = Inr b"
      by (subst probe_valid_deterministic [OF det]) (rule b0)
    show "case probe_valid E raw rt tt thr a ?mid k' of
        Inl e \<Rightarrow> ?Q (Inl e)
      | Inr ok \<Rightarrow> if ok then ?I (?mid + 1) upper ?mid (k' + 1)
                   else ?I lower (?mid - 1) best (k' + 1)"
    proof (cases b)
      case True
      then have "?I (?mid + 1) upper ?mid (k' + 1)" using I b0 mid midlt by auto
      then show ?thesis using b True by simp
    next
      case False
      have nv: "\<not> ?V ?mid" using b0 False by simp
      have "\<forall>i. ?mid - 1 < i \<and> i < length raw \<longrightarrow> \<not> ?V i"
      proof (intro allI impI)
        fix i assume i: "?mid - 1 < i \<and> i < length raw"
        then have "?mid \<le> i" by arith
        then show "\<not> ?V i" using above [OF mid nv, of i] i by blast
      qed
      then have "?I lower (?mid - 1) best (k' + 1)" using I midlt by auto
      then show ?thesis using b False by simp
    qed
  next
    fix lower upper best k'
    assume I: "?I lower upper best k'"
      and stop: "upper < lower \<or> (lower + upper) div 2 \<le> a"
    have "\<not> ?V i" if i: "best < i" "i < length raw" for i
    proof (cases "a < lower")
      case False
      then have "\<forall>i. a < i \<and> i < length raw \<longrightarrow> \<not> ?V i" using I by blast
      moreover have "a \<le> best" using I by auto
      ultimately show ?thesis using i by auto
    next
      case True
      then have "upper < lower" using stop by auto
      then have "upper < i" using I i by auto
      then show ?thesis using I i by blast
    qed
    then show "?Q (Inr (best, k'))" using I by auto
  qed
  then show ?thesis by blast
qed

text \<open>
  Claim C5. Let the collaborator answer each query the same way at every call, let no probe
  from the anchor raise, and let validity be monotone: when the probe of \<open>j\<close> validates, so
  does the probe of every \<open>i\<close> between the anchor and \<open>j\<close>. Then one iteration of the main
  loop either finds no valid index at all and skips one raw point, or commits an index that
  is valid and above which no index is valid: the maximal one. The early exit on
  \<^verbatim>\<open>mid_idx <= last_anchor_idx\<close> is taken only when no index is valid.
\<close>

theorem search_commits_maximal_index:
  assumes det: "\<forall>k p t opts. forwardRouting E k p t opts = forwardRouting E 0 p t opts"
    and noerr: "\<forall>i. anchor s < i \<and> i < length raw \<longrightarrow>
                  (\<exists>b. probe_valid E raw rt tt thr (anchor s) i 0 = Inr b)"
    and mono: "\<forall>i j. anchor s < i \<and> i < j \<and> j < length raw \<and>
                 probe_valid E raw rt tt thr (anchor s) j 0 = Inr True \<longrightarrow>
                 probe_valid E raw rt tt thr (anchor s) i 0 = Inr True"
    and a: "anchor s < length raw - 1"
  shows "\<exists>s'. advance E raw rt tt thr s = Some (Inr s') \<and>
           (((\<forall>i. anchor s < i \<and> i < length raw \<longrightarrow>
                  probe_valid E raw rt tt thr (anchor s) i 0 \<noteq> Inr True) \<and>
             anchor s' = anchor s + 1 \<and> key_waypoints_coords s' = key_waypoints_coords s) \<or>
            (anchor s < anchor s' \<and> anchor s' < length raw \<and>
             probe_valid E raw rt tt thr (anchor s) (anchor s') 0 = Inr True \<and>
             (\<forall>i. anchor s' < i \<and> i < length raw \<longrightarrow>
                  probe_valid E raw rt tt thr (anchor s) i 0 \<noteq> Inr True) \<and>
             key_waypoints_coords s' = key_waypoints_coords s @ [coord_of (raw ! anchor s')]))"
proof -
  from expand_monotone [OF det noerr a, of "calls s"] obtain lo up k1 where
    e: "expand E raw rt tt thr (anchor s) (anchor s) 1 (calls s) = Some (Inr (lo, up, k1))"
    and lo: "lo < length raw" "up < length raw"
      "(lo = anchor s \<and> probe_valid E raw rt tt thr (anchor s) (anchor s + 1) 0 = Inr False) \<or>
       (anchor s < lo \<and> probe_valid E raw rt tt thr (anchor s) lo 0 = Inr True)"
      "up = length raw - 1 \<or>
       (anchor s < up \<and> probe_valid E raw rt tt thr (anchor s) up 0 = Inr False)"
    by blast
  from bsearch_monotone [OF det noerr mono a lo, of k1] obtain best k2 where
    b: "bsearch E raw rt tt thr (anchor s) lo up lo k1 = Some (Inr (best, k2))"
    and best: "best < length raw"
      "best = anchor s \<or>
       (anchor s < best \<and> probe_valid E raw rt tt thr (anchor s) best 0 = Inr True)"
      "\<forall>i. best < i \<and> i < length raw \<longrightarrow>
           probe_valid E raw rt tt thr (anchor s) i 0 \<noteq> Inr True"
    by blast
  have fb: "find_best E raw rt tt thr (anchor s) (calls s) = Some (Inr (best, k2))"
    using e b by (simp add: find_best_def)
  from best(2) show ?thesis
  proof
    assume "best = anchor s"
    then show ?thesis using fb best(3) by (simp add: advance_def)
  next
    assume v: "anchor s < best \<and> probe_valid E raw rt tt thr (anchor s) best 0 = Inr True"
    then obtain cs where "get_route_via_forward_routing E 0 rt
        [coord_of (raw ! anchor s), coord_of (raw ! best)] tt = Inr (Some cs)"
      using probe_valid_route by blast
    then have "get_route_via_forward_routing E k2 rt
        [coord_of (raw ! anchor s), coord_of (raw ! best)] tt = Inr (Some cs)"
      by (subst get_route_deterministic [OF det])
    then show ?thesis using fb v best(1,3) by (simp add: advance_def)
  qed
qed

theorem search_commits_maximal_index_witness:
  "advance (sample_env (\<lambda>k p. StrResponse ''ok'') (\<lambda>p. (0, 0))) [pt 0, pt 1, pt 2, pt 3, pt 4]
     ''driving'' ''car'' 3000 (initial_state [pt 0, pt 1, pt 2, pt 3, pt 4]) =
     Some (Inr \<lparr>anchor = 3, key_waypoints_coords = [(0, 0), (3, 3)],
                 final_route_coords = [(0, 0)], calls = 6\<rparr>) \<and>
   probe_valid (sample_env (\<lambda>k p. StrResponse ''ok'') (\<lambda>p. (0, 0))) [pt 0, pt 1, pt 2, pt 3, pt 4]
     ''driving'' ''car'' 3000 0 3 0 = Inr True \<and>
   probe_valid (sample_env (\<lambda>k p. StrResponse ''ok'') (\<lambda>p. (0, 0))) [pt 0, pt 1, pt 2, pt 3, pt 4]
     ''driving'' ''car'' 3000 0 4 0 = Inr False \<and>
   (\<exists>s'. advance (sample_env (\<lambda>k p. StrResponse ''ok'') (\<lambda>p. (0, 0))) [pt 0, pt 1, pt 2, pt 3, pt 4]
           ''driving'' ''car'' 3000 (initial_state [pt 0, pt 1, pt 2, pt 3, pt 4]) = Some (Inr s') \<and>
         anchor s' = 3)"
proof -
  let ?E = "sample_env (\<lambda>k p. StrResponse ''ok'') (\<lambda>p. (0, 0))"
  let ?raw = "[pt 0, pt 1, pt 2, pt 3, pt 4]"
  let ?s = "initial_state ?raw"
  let ?V = "\<lambda>i. probe_valid ?E ?raw ''driving'' ''car'' 3000 (anchor ?s) i 0"
  have a0: "anchor ?s = 0" by (simp add: initial_state_def)
  have p1: "?V 1 = Inr True" by (simp add: run_simps)
  have p2: "?V 2 = Inr True" by (simp add: run_simps)
  have p3: "?V 3 = Inr True" by (simp add: run_simps)
  have p4: "?V 4 = Inr False" by (simp add: run_simps)
  have cases: "i = 1 \<or> i = 2 \<or> i = 3 \<or> i = 4" if "anchor ?s < i \<and> i < length ?raw" for i
    using that a0 by auto
  have det: "\<forall>k p t opts. forwardRouting ?E k p t opts = forwardRouting ?E 0 p t opts"
    by (simp add: sample_env_def)
  have noerr: "\<forall>i. anchor ?s < i \<and> i < length ?raw \<longrightarrow> (\<exists>b. ?V i = Inr b)"
    using cases p1 p2 p3 p4 by metis
  have mono: "\<forall>i j. anchor ?s < i \<and> i < j \<and> j < length ?raw \<and> ?V j = Inr True \<longrightarrow>
                ?V i = Inr True"
  proof (intro allI impI)
    fix i j
    assume h: "anchor ?s < i \<and> i < j \<and> j < length ?raw \<and> ?V j = Inr True"
    then have "i = 1 \<or> i = 2 \<or> i = 3" using a0 by auto
    then show "?V i = Inr True" using p1 p2 p3 by metis
  qed
  have a: "anchor ?s < length ?raw - 1" by (simp add: initial_state_def)
  have run: "advance ?E ?raw ''driving'' ''car'' 3000 ?s =
     Some (Inr \<lparr>anchor = 3, key_waypoints_coords = [(0, 0), (3, 3)],
                 final_route_coords = [(0, 0)], calls = 6\<rparr>)"
    by (simp add: run_simps)
  from search_commits_maximal_index [OF det noerr mono a]
  show ?thesis using run p3 p4 a0 by simp
qed

section \<open>Failure of the final routing call\<close>

text \<open>
  Claim C6, at an input where the code departs from it. The engine answers the two probes
  of a two-point trace with a route and the final call for the same segment with
  \<^verbatim>\<open>NoRoute\<close>: the run does not return a result, it raises \<^verbatim>\<open>TypeError\<close> at line 90.
\<close>

theorem clean_aborts_on_failed_final_call:
  "clean_gps_route (sample_env (fails_from 2) id)
     [pt 0, pt 1] ''train'' 500 = Some (Inl (TypeError ''NoneType object is not subscriptable''))"
  by (simp add: run_simps)

text \<open>
  Claim C10. At the head of any iteration of a run, when the search from the anchor ends
  with a best index beyond it and the routing call then made for that segment returns
  \<^verbatim>\<open>None\<close>, \<^verbatim>\<open>clean_gps_route\<close> raises \<^verbatim>\<open>TypeError\<close> (the slice of \<^verbatim>\<open>None\<close> at line 90)
  and returns no result.
\<close>

theorem failed_final_call_raises:
  assumes "2 \<le> length raw"
    and "reaches E raw (get_router_type trip_type) trip_type threshold (initial_state raw) s"
    and "anchor s < length raw - 1"
    and "find_best E raw (get_router_type trip_type) trip_type threshold (anchor s) (calls s) =
           Some (Inr (best, k))"
    and "anchor s < best"
    and "get_route_via_forward_routing E k (get_router_type trip_type)
           [coord_of (raw ! anchor s), coord_of (raw ! best)] trip_type = Inr None"
  shows "clean_gps_route E raw trip_type threshold =
           Some (Inl (TypeError ''NoneType object is not subscriptable''))"
proof -
  have "advance E raw (get_router_type trip_type) trip_type threshold s =
          Some (Inl (TypeError ''NoneType object is not subscriptable''))"
    using assms(4,5,6) by (simp add: advance_def)
  then have "main_loop E raw (get_router_type trip_type) trip_type threshold s =
          Some (Inl (TypeError ''NoneType object is not subscriptable''))"
    using assms(3) by (subst main_loop.simps) simp
  then have "main_loop E raw (get_router_type trip_type) trip_type threshold (initial_state raw) =
          Some (Inl (TypeError ''NoneType object is not subscriptable''))"
    using reaches_main_loop [OF assms(2)] by simp
  then show ?thesis using assms(1) by (simp add: clean_gps_route_def)
qed

theorem failed_final_call_raises_witness:
  "find_best (sample_env (fails_at 3) id) [pt 0, pt 1, pt 2] (get_router_type ''train'') ''train'' 500 0 0 =
     Some (Inr (2, 3)) \<and>
   get_route_via_forward_routing (sample_env (fails_at 3) id) 3 (get_router_type ''train'')
     [coord_of ([pt 0, pt 1, pt 2] ! 0), coord_of ([pt 0, pt 1, pt 2] ! 2)] ''train'' = Inr None \<and>
   clean_gps_route (sample_env (fails_at 3) id) [pt 0, pt 1, pt 2] ''train'' 500 =
     Some (Inl (TypeError ''NoneType object is not subscriptable''))"
proof -
  let ?E = "sample_env (fails_at 3) id"
  let ?raw = "[pt 0, pt 1, pt 2]"
  have len: "2 \<le> length ?raw" by simp
  have s: "reaches ?E ?raw (get_router_type ''train'') ''train'' 500 (initial_state ?raw) (initial_state ?raw)"
    by (rule reaches.start)
  have g: "anchor (initial_state ?raw) < length ?raw - 1" by (simp add: initial_state_def)
  have fb: "find_best ?E ?raw (get_router_type ''train'') ''train'' 500 0 0 = Some (Inr (2, 3))"
    by (simp add: run_simps)
  have fb': "find_best ?E ?raw (get_router_type ''train'') ''train'' 500
               (anchor (initial_state ?raw)) (calls (initial_state ?raw)) = Some (Inr (2, 3))"
    using fb by (simp add: initial_state_def)
  have b: "anchor (initial_state ?raw) < 2" by (simp add: initial_state_def)
  have fin: "get_route_via_forward_routing ?E 3 (get_router_type ''train'')
     [coord_of (?raw ! 0), coord_of (?raw ! 2)] ''train'' = Inr None"
    by (simp add: run_simps)
  have fin': "get_route_via_forward_routing ?E 3 (get_router_type ''train'')
     [coord_of (?raw ! anchor (initial_state ?raw)), coord_of (?raw ! 2)] ''train'' = Inr None"
    using fin by (simp add: initial_state_def)
  from failed_final_call_raises [OF len s g fb' b fin'] show ?thesis using fb fin by simp
qed

section \<open>The routing client\<close>

lemma routing_result_unsupported:
  "routing_result E k rt wps tt = Inl (TypeError ''Unsupported response type'') \<longleftrightarrow>
   forwardRouting E k (router_path E rt wps) tt (router_options rt wps) = OtherResponse"
  by (simp add: routing_result_def split: response.splits option.splits)

lemma getitem_str_not_unsupported:
  "getitem_str v key = Inl e \<Longrightarrow> e \<noteq> TypeError ''Unsupported response type''"
  by (cases v) (auto split: option.splits)

lemma getitem_0_not_unsupported:
  "getitem_0 v = Inl e \<Longrightarrow> e \<noteq> TypeError ''Unsupported response type''"
  by (cases v) (auto split: list.splits)

lemma first_route_not_unsupported:
  "first_route rr = Inl e \<Longrightarrow> e \<noteq> TypeError ''Unsupported response type''"
  by (auto simp: first_route_def split: sum.splits
      dest: getitem_str_not_unsupported getitem_0_not_unsupported)

lemma decoded_route_not_unsupported:
  "decoded_route E rr = Inl e \<Longrightarrow> e \<noteq> TypeError ''Unsupported response type''"
  by (auto simp: decoded_route_def split: sum.splits option.splits
      dest: first_route_not_unsupported getitem_str_not_unsupported)

lemma get_route_unsupported:
  "get_route_via_forward_routing E k rt wps tt = Inl (TypeError ''Unsupported response type'') \<longleftrightarrow>
   forwardRouting E k (router_path E rt wps) tt (router_options rt wps) = OtherResponse"
proof (cases "routing_result E k rt wps tt")
  case (Inl e)
  then show ?thesis
    using routing_result_unsupported [of E k rt wps tt]
    by (simp add: get_route_via_forward_routing_def)
next
  case (Inr rr)
  then have "forwardRouting E k (router_path E rt wps) tt (router_options rt wps) \<noteq> OtherResponse"
    using routing_result_unsupported [of E k rt wps tt] by simp
  then show ?thesis
    using Inr
    by (auto simp: get_route_via_forward_routing_def split: sum.splits
        dest: getitem_str_not_unsupported decoded_route_not_unsupported)
qed

lemma get_route_details_unsupported:
  "get_route_via_forward_routing_details E k rt wps tt = Inl (TypeError ''Unsupported response type'') \<longleftrightarrow>
   forwardRouting E k (router_path E rt wps) tt (router_options rt wps) = OtherResponse"
proof (cases "routing_result E k rt wps tt")
  case (Inl e)
  then show ?thesis
    using routing_result_unsupported [of E k rt wps tt]
    by (simp add: get_route_via_forward_routing_details_def)
next
  case (Inr rr)
  then have "forwardRouting E k (router_path E rt wps) tt (router_options rt wps) \<noteq> OtherResponse"
    using routing_result_unsupported [of E k rt wps tt] by simp
  then show ?thesis
    using Inr
    by (auto simp: get_route_via_forward_routing_details_def split: sum.splits json.splits
        dest: getitem_str_not_unsupported decoded_route_not_unsupported first_route_not_unsupported)
qed

lemma routing_result_parsed:
  "forwardRouting E k (router_path E rt wps) tt (router_options rt wps) \<in> {FlaskResponse body, StrResponse body} \<Longrightarrow>
   json_loads E body = Some rr \<Longrightarrow> routing_result E k rt wps tt = Inr rr"
  by (auto simp: routing_result_def)

text \<open>
  Claim C9. When the answer of the engine is a \<^verbatim>\<open>Response\<close> or a string whose body parses
  to a value with a \<^verbatim>\<open>code\<close> other than \<^verbatim>\<open>"Ok"\<close>, the routing client returns the no-route
  value (\<^verbatim>\<open>None\<close>, or \<^verbatim>\<open>(None, 0, 0)\<close> with details) and does not raise. It raises
  \<^verbatim>\<open>TypeError("Unsupported response type")\<close>, an error and not the no-route value, exactly
  when the answer is neither a \<^verbatim>\<open>Response\<close> nor a string.
\<close>

theorem routing_client_failure_kinds:
  "(forwardRouting E k (router_path E rt wps) tt (router_options rt wps) \<in> {FlaskResponse body, StrResponse body} \<and>
    json_loads E body = Some rr \<and> getitem_str rr ''code'' = Inr code \<and> code \<noteq> JStr ''Ok'' \<longrightarrow>
      get_route_via_forward_routing E k rt wps tt = Inr None \<and>
      get_route_via_forward_routing_details E k rt wps tt = Inr (None, JNum 0, JNum 0)) \<and>
   (get_route_via_forward_routing E k rt wps tt = Inl (TypeError ''Unsupported response type'') \<longleftrightarrow>
      forwardRouting E k (router_path E rt wps) tt (router_options rt wps) = OtherResponse) \<and>
   (get_route_via_forward_routing_details E k rt wps tt = Inl (TypeError ''Unsupported response type'') \<longleftrightarrow>
      forwardRouting E k (router_path E rt wps) tt (router_options rt wps) = OtherResponse)"
proof (intro conjI impI)
  assume h: "forwardRouting E k (router_path E rt wps) tt (router_options rt wps) \<in> {FlaskResponse body, StrResponse body} \<and>
    json_loads E body = Some rr \<and> getitem_str rr ''code'' = Inr code \<and> code \<noteq> JStr ''Ok''"
  then have rr: "routing_result E k rt wps tt = Inr rr"
    using routing_result_parsed by blast
  show "get_route_via_forward_routing E k rt wps tt = Inr None"
    using h rr by (simp add: get_route_via_forward_routing_def)
  show "get_route_via_forward_routing_details E k rt wps tt = Inr (None, JNum 0, JNum 0)"
    using h rr by (simp add: get_route_via_forward_routing_details_def)
qed (rule get_route_unsupported get_route_details_unsupported)+

theorem routing_client_failure_kinds_witness:
  "forwardRouting (sample_env (\<lambda>k p. StrResponse ''no'') id) 0
     (router_path (sample_env (\<lambda>k p. StrResponse ''no'') id) ''rail'' [(0, 0), (1, 1)]) ''train''
     (router_options ''rail'' [(0, 0), (1, 1)]) \<in> {FlaskResponse ''no'', StrResponse ''no''} \<and>
   json_loads (sample_env (\<lambda>k p. StrResponse ''no'') id) ''no'' = Some noroute_json \<and>
   getitem_str noroute_json ''code'' = Inr (JStr ''NoRoute'') \<and> JStr ''NoRoute'' \<noteq> JStr ''Ok'' \<and>
   get_route_via_forward_routing (sample_env (\<lambda>k p. StrResponse ''no'') id) 0 ''rail''
     [(0, 0), (1, 1)] ''train'' = Inr None \<and>
   get_route_via_forward_routing_details (sample_env (\<lambda>k p. StrResponse ''no'') id) 0 ''rail''
     [(0, 0), (1, 1)] ''train'' = Inr (None, JNum 0, JNum 0) \<and>
   get_route_via_forward_routing (sample_env (\<lambda>k p. OtherResponse) id) 0 ''rail''
     [(0, 0), (1, 1)] ''train'' = Inl (TypeError ''Unsupported response type'')"
  using
    routing_client_failure_kinds [of "sample_env (\<lambda>k p. StrResponse ''no'') id" 0 "''rail''"
      "[(0, 0), (1, 1)]" "''train''" "''no''" noroute_json "JStr ''NoRoute''"]
    routing_client_failure_kinds [of "sample_env (\<lambda>k p. OtherResponse) id" 0 "''rail''"
      "[(0, 0), (1, 1)]" "''train''"]
  by (simp add: sample_env_def noroute_json_def)

section \<open>The dense path\<close>



section \<open>The first and the last key waypoint\<close>








section \<open>The haversine formula in exact arithmetic\<close>

lemma cos_of_half_angle:
  fixes t :: real
  shows "cos t = 1 - 2 * (sin (t / 2))\<^sup>2"
proof -
  have "cos (2 * (t / 2)) = 1 - 2 * (sin (t / 2))\<^sup>2" by (rule cos_double_sin)
  moreover have "2 * (t / 2) = t" by simp
  ultimately show ?thesis by (simp only:)
qed

lemma cosine_of_central_angle:
  fixes x1 x2 y1 y2 :: real
  shows "1 - 2 * ((sin ((y2 - y1) / 2))\<^sup>2 + cos y1 * cos y2 * (sin ((x2 - x1) / 2))\<^sup>2) =
   sin y1 * sin y2 + cos y1 * cos y2 * cos (x2 - x1)"
proof -
  have a: "cos (y2 - y1) = 1 - 2 * (sin ((y2 - y1) / 2))\<^sup>2"
    by (rule cos_of_half_angle)
  have b: "cos (x2 - x1) = 1 - 2 * (sin ((x2 - x1) / 2))\<^sup>2"
    by (rule cos_of_half_angle)
  have c: "cos (y2 - y1) = cos y2 * cos y1 + sin y2 * sin y1"
    by (rule cos_diff)
  have e1: "2 * (sin ((y2 - y1) / 2))\<^sup>2 = 1 - (cos y2 * cos y1 + sin y2 * sin y1)"
    using a c by simp
  have e2: "2 * (sin ((x2 - x1) / 2))\<^sup>2 = 1 - cos (x2 - x1)"
    using b by simp
  have "1 - 2 * ((sin ((y2 - y1) / 2))\<^sup>2 + cos y1 * cos y2 * (sin ((x2 - x1) / 2))\<^sup>2) =
        1 - 2 * (sin ((y2 - y1) / 2))\<^sup>2 - cos y1 * cos y2 * (2 * (sin ((x2 - x1) / 2))\<^sup>2)"
    by (simp add: algebra_simps)
  also have "\<dots> = 1 - (1 - (cos y2 * cos y1 + sin y2 * sin y1)) -
                   cos y1 * cos y2 * (1 - cos (x2 - x1))"
    by (simp only: e1 e2)
  also have "\<dots> = sin y1 * sin y2 + cos y1 * cos y2 * cos (x2 - x1)"
    by (simp add: algebra_simps)
  finally show ?thesis .
qed

lemma central_cosine_bounds:
  fixes y1 y2 d :: real
  shows "- 1 \<le> sin y1 * sin y2 + cos y1 * cos y2 * cos d \<and>
   sin y1 * sin y2 + cos y1 * cos y2 * cos d \<le> 1"
proof -
  let ?k = "cos d"
  have k: "- 1 \<le> ?k" "?k \<le> 1" by simp_all
  have split: "sin y1 * sin y2 + cos y1 * cos y2 * ?k =
          (1 + ?k) / 2 * cos (y1 - y2) - (1 - ?k) / 2 * cos (y1 + y2)"
    by (simp add: cos_diff cos_add algebra_simps add_divide_distrib diff_divide_distrib)
  have "0 \<le> 1 + ?k" "0 \<le> 1 - ?k" using k by linarith+
  then have u: "0 \<le> (1 + ?k) / 2" and v: "0 \<le> (1 - ?k) / 2" by simp_all
  have "(1 + ?k) / 2 * cos (y1 - y2) \<le> (1 + ?k) / 2 * 1"
    by (rule mult_left_mono [OF _ u]) simp
  moreover have "(1 - ?k) / 2 * (- 1) \<le> (1 - ?k) / 2 * cos (y1 + y2)"
    by (rule mult_left_mono [OF _ v]) simp
  moreover have "(1 + ?k) / 2 * (- 1) \<le> (1 + ?k) / 2 * cos (y1 - y2)"
    by (rule mult_left_mono [OF _ u]) simp
  moreover have "(1 - ?k) / 2 * cos (y1 + y2) \<le> (1 - ?k) / 2 * 1"
    by (rule mult_left_mono [OF _ v]) simp
  ultimately show ?thesis unfolding split by (simp add: field_simps)
qed

lemma half_angle_atan2:
  assumes "0 \<le> a" "a \<le> 1"
  shows "2 * atan2 (sqrt a) (sqrt (1 - a)) = arccos (1 - 2 * a)"
proof -
  let ?th = "arccos (1 - 2 * a)"
  let ?h = "?th / 2"
  have range: "- 1 \<le> 1 - 2 * a" "1 - 2 * a \<le> 1" using assms by simp_all
  have th: "0 \<le> ?th" "?th \<le> pi"
    using arccos_lbound [OF range] arccos_ubound [OF range] by simp_all
  have h: "0 \<le> ?h" "?h \<le> pi / 2" using th by simp_all
  have "cos ?th = 1 - 2 * a" by (rule cos_arccos [OF range])
  moreover have "cos ?th = 1 - 2 * (sin ?h)\<^sup>2"
    by (rule cos_of_half_angle)
  ultimately have s2: "(sin ?h)\<^sup>2 = a" by simp
  have "0 \<le> sin ?h" using h pi_ge_two by (intro sin_ge_zero) simp_all
  then have s: "sqrt a = sin ?h" using s2 by (intro real_sqrt_unique) simp_all
  have "(cos ?h)\<^sup>2 = 1 - (sin ?h)\<^sup>2"
    by (simp add: cos_squared_eq)
  then have c2: "(cos ?h)\<^sup>2 = 1 - a" using s2 by simp
  have cge: "0 \<le> cos ?h" using h by (intro cos_ge_zero) simp_all
  then have c: "sqrt (1 - a) = cos ?h" using c2 by (intro real_sqrt_unique) simp_all
  show ?thesis
  proof (cases "cos ?h = 0")
    case True
    then have "a = 1" using c2 by simp
    then show ?thesis by (simp add: atan2_def)
  next
    case False
    then have pos: "0 < cos ?h" using cge by simp
    have "?h \<noteq> pi / 2" using False by auto
    then have lt: "?h < pi / 2" using h by simp
    have "atan2 (sin ?h) (cos ?h) = arctan (tan ?h)"
      using pos by (simp add: atan2_def tan_def)
    also have "\<dots> = ?h" using h lt by (intro arctan_tan) simp_all
    finally show ?thesis using s c by simp
  qed
qed

lemma haversine_exact:
  assumes "exact_arithmetic E"
  shows "haversine_distance E p q = Inr (great_circle_distance p q)"
proof -
  let ?y1 = "snd p * pi / 180" and ?y2 = "snd q * pi / 180"
  let ?x1 = "fst p * pi / 180" and ?x2 = "fst q * pi / 180"
  let ?a = "(sin ((?y2 - ?y1) / 2))\<^sup>2 + cos ?y1 * cos ?y2 * (sin ((?x2 - ?x1) / 2))\<^sup>2"
  have a: "haversine_a E (math_radians E (snd p)) (math_radians E (snd q))
             (f_sub E (math_radians E (snd q)) (math_radians E (snd p)))
             (f_sub E (math_radians E (fst q)) (math_radians E (fst p))) = ?a"
    using assms by (simp add: exact_arithmetic_def haversine_a_def)
  have c: "1 - 2 * ?a = sin ?y1 * sin ?y2 + cos ?y1 * cos ?y2 * cos (?x2 - ?x1)"
    by (rule cosine_of_central_angle)
  have b: "- 1 \<le> 1 - 2 * ?a" "1 - 2 * ?a \<le> 1"
    unfolding c using central_cosine_bounds [of ?y1 ?y2 "?x2 - ?x1"] by simp_all
  then have r: "0 \<le> ?a" "?a \<le> 1" by simp_all
  have "haversine_distance E p q = Inr (6371000 * (2 * atan2 (sqrt ?a) (sqrt (1 - ?a))))"
    unfolding haversine_distance_def a using assms r
    by (simp add: exact_arithmetic_def py_sqrt_def)
  also have "2 * atan2 (sqrt ?a) (sqrt (1 - ?a)) = arccos (1 - 2 * ?a)"
    by (rule half_angle_atan2 [OF r])
  finally show ?thesis
    unfolding c by (simp add: great_circle_distance_def central_angle_def)
qed

section \<open>The nearest point of a polyline\<close>

lemma sq_dist_along:
  "sq_dist p (along a b t) =
     sq_dist p a
     - 2 * t * ((fst p - fst a) * (fst b - fst a) + (snd p - snd a) * (snd b - snd a))
     + t\<^sup>2 * ((fst b - fst a)\<^sup>2 + (snd b - snd a)\<^sup>2)"
  by (simp add: sq_dist_def along_def power2_eq_square algebra_simps)

lemma quadratic_clamped_minimum:
  fixes m l t :: real
  assumes l: "0 < l" and t: "0 \<le> t" "t \<le> 1"
  shows "- 2 * max 0 (min 1 (m / l)) * m + (max 0 (min 1 (m / l)))\<^sup>2 * l \<le> - 2 * t * m + t\<^sup>2 * l"
proof -
  consider "m \<le> 0" | "l \<le> m" | "0 < m" "m < l" by linarith
  then show ?thesis
  proof cases
    case 1
    then have "m / l \<le> 0" using l by (simp add: divide_le_0_iff)
    then have c: "max 0 (min 1 (m / l)) = 0" by simp
    have "0 \<le> t * (- m)" using t 1 by (intro mult_nonneg_nonneg) simp_all
    moreover have "0 \<le> t\<^sup>2 * l" using l by simp
    ultimately show ?thesis unfolding c by simp
  next
    case 2
    then have "1 \<le> m / l" using l by simp
    then have c: "max 0 (min 1 (m / l)) = 1" by simp
    have "0 \<le> (1 - t) * (2 * m - l * (1 + t))"
    proof (rule mult_nonneg_nonneg)
      show "0 \<le> 1 - t" using t by simp
      have "l * (1 + t) \<le> l * 2" using l t by (intro mult_left_mono) simp_all
      then show "0 \<le> 2 * m - l * (1 + t)" using 2 by simp
    qed
    then show ?thesis unfolding c by (simp add: power2_eq_square algebra_simps)
  next
    case 3
    then have "0 < m / l" "m / l < 1" using l by simp_all
    then have c: "max 0 (min 1 (m / l)) = m / l" by simp
    define r where "r = m / l"
    have m: "m = r * l" using l by (simp add: r_def)
    have "0 \<le> l * (t - r)\<^sup>2" using l by simp
    also have "l * (t - r)\<^sup>2 =
                 (- 2 * t * (r * l) + t\<^sup>2 * l) - (- 2 * r * (r * l) + r\<^sup>2 * l)"
      by (simp add: power2_eq_square algebra_simps)
    finally have "- 2 * r * (r * l) + r\<^sup>2 * l \<le> - 2 * t * (r * l) + t\<^sup>2 * l" by simp
    then have "- 2 * r * m + r\<^sup>2 * l \<le> - 2 * t * m + t\<^sup>2 * l" by (simp only: m [symmetric])
    then show ?thesis unfolding c r_def .
  qed
qed

lemma nearest_on_segment_least:
  assumes "0 \<le> t" "t \<le> 1"
  shows "sq_dist p (nearest_on_segment a b p) \<le> sq_dist p (along a b t)"
proof (cases "(fst b - fst a)\<^sup>2 + (snd b - snd a)\<^sup>2 = 0")
  case True
  then have "fst b - fst a = 0" "snd b - snd a = 0"
    by (simp_all add: sum_power2_eq_zero_iff)
  then show ?thesis
    by (simp add: nearest_on_segment_def foot_param_def sq_dist_def along_def)
next
  case False
  then have l: "0 < (fst b - fst a)\<^sup>2 + (snd b - snd a)\<^sup>2"
    using sum_power2_ge_zero [of "fst b - fst a" "snd b - snd a"] by linarith
  from quadratic_clamped_minimum [OF l assms,
      of "(fst p - fst a) * (fst b - fst a) + (snd p - snd a) * (snd b - snd a)"]
  show ?thesis
    unfolding nearest_on_segment_def sq_dist_along
    using False by (simp add: foot_param_def)
qed

lemma foot_param_range: "0 \<le> foot_param a b p \<and> foot_param a b p \<le> 1"
  by (simp add: foot_param_def)

lemma on_polyline_first:
  "0 \<le> t \<Longrightarrow> t \<le> 1 \<Longrightarrow> on_polyline (a # b # rest) (along a b t)"
  unfolding on_polyline_def by (intro exI [of _ 0] exI [of _ t]) simp

lemma on_polyline_rest:
  "on_polyline (b # rest) q \<Longrightarrow> on_polyline (a # b # rest) q"
  unfolding on_polyline_def
proof (elim exE conjE)
  fix i t
  assume "i + 1 < length (b # rest)" "0 \<le> t" "t \<le> 1"
    "q = along ((b # rest) ! i) ((b # rest) ! (i + 1)) t"
  then show "\<exists>i t. i + 1 < length (a # b # rest) \<and> 0 \<le> t \<and> t \<le> 1 \<and>
      q = along ((a # b # rest) ! i) ((a # b # rest) ! (i + 1)) t"
    by (intro exI [of _ "Suc i"] exI [of _ t]) simp
qed

lemma on_polyline_cases:
  assumes "on_polyline (a # b # rest) q"
  shows "(\<exists>t. 0 \<le> t \<and> t \<le> 1 \<and> q = along a b t) \<or> on_polyline (b # rest) q"
proof -
  from assms obtain i t where it: "i + 1 < length (a # b # rest)" "0 \<le> t" "t \<le> 1"
    "q = along ((a # b # rest) ! i) ((a # b # rest) ! (i + 1)) t"
    unfolding on_polyline_def by blast
  show ?thesis
  proof (cases i)
    case 0
    then show ?thesis using it by auto
  next
    case (Suc j)
    then have "j + 1 < length (b # rest)" "q = along ((b # rest) ! j) ((b # rest) ! (j + 1)) t"
      using it by simp_all
    then show ?thesis using it(2,3) unfolding on_polyline_def by blast
  qed
qed

text \<open>The point chosen lies on the polyline, and no point of the polyline is nearer.\<close>

lemma nearest_on_polyline_nearest:
  assumes "2 \<le> length route"
  shows "on_polyline route (nearest_on_polyline route p) \<and>
         (\<forall>q. on_polyline route q \<longrightarrow> sq_dist p (nearest_on_polyline route p) \<le> sq_dist p q)"
  using assms
proof (induction route p rule: nearest_on_polyline.induct)
  case (1 a b rest p)
  have seg_on: "on_polyline (a # b # rest) (nearest_on_segment a b p)"
    unfolding nearest_on_segment_def using foot_param_range [of a b p]
    by (intro on_polyline_first) simp_all
  have seg_least: "sq_dist p (nearest_on_segment a b p) \<le> sq_dist p q"
    if "\<exists>t. 0 \<le> t \<and> t \<le> 1 \<and> q = along a b t" for q
    using that nearest_on_segment_least by blast
  show ?case
  proof (cases "rest = []")
    case True
    have "\<not> on_polyline [b] q" for q by (simp add: on_polyline_def)
    then show ?thesis
      using True seg_on seg_least on_polyline_cases [of a b "[]"] by auto
  next
    case False
    then have "2 \<le> length (b # rest)" by (cases rest) simp_all
    from "1.IH"(1) [OF False this] have
      tail_on: "on_polyline (b # rest) (nearest_on_polyline (b # rest) p)"
      and tail_least: "\<And>q. on_polyline (b # rest) q \<Longrightarrow>
                 sq_dist p (nearest_on_polyline (b # rest) p) \<le> sq_dist p q"
      by blast+
    show ?thesis
    proof (cases "sq_dist p (nearest_on_segment a b p) \<le>
                  sq_dist p (nearest_on_polyline (b # rest) p)")
      case True
      have "sq_dist p (nearest_on_segment a b p) \<le> sq_dist p q" if "on_polyline (a # b # rest) q" for q
        using on_polyline_cases [OF that]
      proof
        assume "\<exists>t. 0 \<le> t \<and> t \<le> 1 \<and> q = along a b t"
        then show ?thesis by (rule seg_least)
      next
        assume "on_polyline (b # rest) q"
        from tail_least [OF this] show ?thesis using True by linarith
      qed
      then show ?thesis using True False seg_on by simp
    next
      case F: False
      have "sq_dist p (nearest_on_polyline (b # rest) p) \<le> sq_dist p q"
        if "on_polyline (a # b # rest) q" for q
        using on_polyline_cases [OF that]
      proof
        assume "\<exists>t. 0 \<le> t \<and> t \<le> 1 \<and> q = along a b t"
        from seg_least [OF this] show ?thesis using F by linarith
      next
        assume "on_polyline (b # rest) q"
        then show ?thesis by (rule tail_least)
      qed
      then show ?thesis using F False on_polyline_rest [OF tail_on] by simp
    qed
  qed
qed simp_all

section \<open>Segment validation\<close>

lemma haversine_distance_domain_error:
  assumes "a = haversine_a E (math_radians E (snd p)) (math_radians E (snd q))
                 (f_sub E (math_radians E (snd q)) (math_radians E (snd p)))
                 (f_sub E (math_radians E (fst q)) (math_radians E (fst p)))"
    and "0 \<le> a" and "f_sub E 1 a < 0"
  shows "haversine_distance E p q = Inl (ValueError ''math domain error'')"
  using assms by (simp add: haversine_distance_def py_sqrt_def)

lemma validate_segment_raises:
  assumes "line_nearest E route p = Some q" and "haversine_distance E p q = Inl e"
  shows "validate_segment E route (p # pts) thr = Inl e"
  using assms by (simp add: validate_segment_def)

lemma validate_segment_no_projection:
  assumes "line_nearest E route p = None"
  shows "validate_segment E route (p # pts) thr = Inl GeometryError"
  using assms by (simp add: validate_segment_def)

lemma validate_points_true_iff:
  "validate_points E route pts thr = Inr True \<longleftrightarrow>
   (\<forall>p\<in>set pts. \<exists>q d. line_nearest E route p = Some q \<and>
                        haversine_distance E p q = Inr d \<and> d \<le> thr)"
  by (induction pts) (auto split: option.splits sum.splits simp: not_less)

lemma validate_points_all:
  "\<forall>p\<in>set pts. line_nearest E route p = Some (proj p) \<and>
               haversine_distance E p (proj p) = Inr (gc p) \<Longrightarrow>
   validate_points E route pts thr = Inr (\<forall>p\<in>set pts. gc p \<le> thr)"
  by (induction pts) (auto simp: not_less)

text \<open>
  Claim C7. \<^verbatim>\<open>validate_segment\<close> answers \<^verbatim>\<open>True\<close> on an empty list of intermediate points,
  for any polyline and threshold. On any list, it answers \<^verbatim>\<open>True\<close> exactly when, for every
  intermediate point, the library yields a projection onto the polyline and
  \<^verbatim>\<open>haversine_distance\<close> yields a distance from the point to that projection which is at
  most the threshold. In exact arithmetic, and with the library yielding the nearest point
  of a polyline of at least two points, its answer is whether the great-circle distance
  from every intermediate point to the nearest point of the polyline is at most the
  threshold.
\<close>

theorem validate_segment_spec:
  "validate_segment E route [] thr = Inr True \<and>
   (validate_segment E route pts thr = Inr True \<longleftrightarrow>
      (\<forall>p\<in>set pts. \<exists>q d. line_nearest E route p = Some q \<and>
                           haversine_distance E p q = Inr d \<and> d \<le> thr)) \<and>
   (exact_arithmetic E \<and> 2 \<le> length route \<and>
    (\<forall>p\<in>set pts. line_nearest E route p = Some (nearest_on_polyline route p)) \<longrightarrow>
      validate_segment E route pts thr =
        Inr (\<forall>p\<in>set pts. great_circle_distance p (nearest_on_polyline route p) \<le> thr) \<and>
      (\<forall>p\<in>set pts. on_polyline route (nearest_on_polyline route p) \<and>
         (\<forall>q. on_polyline route q \<longrightarrow>
                sq_dist p (nearest_on_polyline route p) \<le> sq_dist p q)))"
proof (intro conjI impI)
  show "validate_segment E route [] thr = Inr True"
    by (simp add: validate_segment_def)
  show "validate_segment E route pts thr = Inr True \<longleftrightarrow>
      (\<forall>p\<in>set pts. \<exists>q d. line_nearest E route p = Some q \<and>
                           haversine_distance E p q = Inr d \<and> d \<le> thr)"
    by (cases "pts = []") (simp_all add: validate_segment_def validate_points_true_iff)
next
  assume h: "exact_arithmetic E \<and> 2 \<le> length route \<and>
    (\<forall>p\<in>set pts. line_nearest E route p = Some (nearest_on_polyline route p))"
  then have "\<forall>p\<in>set pts. line_nearest E route p = Some (nearest_on_polyline route p) \<and>
      haversine_distance E p (nearest_on_polyline route p) =
        Inr (great_circle_distance p (nearest_on_polyline route p))"
    using haversine_exact by simp
  from validate_points_all [OF this]
  show "validate_segment E route pts thr =
        Inr (\<forall>p\<in>set pts. great_circle_distance p (nearest_on_polyline route p) \<le> thr)"
    by (cases "pts = []") (simp_all add: validate_segment_def)
  show "\<forall>p\<in>set pts. on_polyline route (nearest_on_polyline route p) \<and>
         (\<forall>q. on_polyline route q \<longrightarrow>
                sq_dist p (nearest_on_polyline route p) \<le> sq_dist p q)"
    using h nearest_on_polyline_nearest by blast
qed

lemma one_degree_of_latitude:
  "great_circle_distance (1, 1) (1, 0) = 6371000 * (pi / 180)"
proof -
  have "0 \<le> pi / 180" "pi / 180 \<le> pi" by simp_all
  then have "arccos (cos (pi / 180)) = pi / 180" by (rule arccos_cos)
  then show ?thesis by (simp add: great_circle_distance_def central_angle_def)
qed

theorem validate_segment_spec_witness:
  "nearest_on_polyline [(0, 0), (2, 0)] (1, 1) = (1, 0) \<and>
   great_circle_distance (1, 1) (1, 0) = 6371000 * (pi / 180) \<and>
   validate_segment exact_env [(0, 0), (2, 0)] [(1, 1)] 500 = Inr False \<and>
   validate_segment exact_env [(0, 0), (2, 0)] [(1, 1)] 200000 = Inr True \<and>
   validate_segment exact_env [(0, 0), (2, 0)] [] 500 = Inr True"
proof -
  have n: "nearest_on_polyline [(0, 0), (2, 0)] (1, 1) = (1, 0)"
    by (simp add: nearest_on_segment_def foot_param_def along_def)
  have e: "exact_arithmetic exact_env"
    by (simp add: exact_arithmetic_def exact_env_def)
  have l: "2 \<le> length [(0, 0), (2, 0) :: coord]" by simp
  have p: "\<forall>p\<in>set [(1, 1)]. line_nearest exact_env [(0, 0), (2, 0)] p =
             Some (nearest_on_polyline [(0, 0), (2, 0)] p)"
    by (simp add: exact_env_def)
  have lo: "500 < 6371000 * (pi / 180)" using pi_ge_two by simp
  have hi: "6371000 * (pi / 180) \<le> 200000" using pi_less_4 by simp
  from validate_segment_spec [of exact_env "[(0, 0), (2, 0)]" 500 "[(1, 1)]"]
    validate_segment_spec [of exact_env "[(0, 0), (2, 0)]" 200000 "[(1, 1)]"]
  show ?thesis using n e l p lo hi one_degree_of_latitude by simp
qed

end
